theory Spec2Isabelle
  imports Main "HOL-Library.Word"
begin

unbundle bit_operations_syntax

section \<open>Loongson IOINTC: assignment of interrupt lines to parent interrupts\<close>

text \<open>
  A shallow embedding of \<^verbatim>\<open>validate_parent_mask\<close> and of
  \<^verbatim>\<open>iointc_of_init\<close>, which prepares its input and calls it, from
  \<^verbatim>\<open>drivers/irqchip/irq-loongson-iointc.c\<close>. The driver is built for the
  64-bit Loongson machines, so \<^verbatim>\<open>unsigned long\<close> is 64 bits wide, \<^verbatim>\<open>u32\<close>
  is 32 and \<^verbatim>\<open>u8\<close> is 8.
\<close>

subsection \<open>Machine integers and kernel primitives\<close>

type_synonym u8 = "8 word"
type_synonym u32 = "32 word"
type_synonym ulong = "64 word"

abbreviation IOINTC_CHIP_IRQ :: nat where "IOINTC_CHIP_IRQ \<equiv> 32"
abbreviation IOINTC_NUM_PARENT :: nat where "IOINTC_NUM_PARENT \<equiv> 4"
abbreviation IOINTC_SHIFT_INTx :: nat where "IOINTC_SHIFT_INTx \<equiv> 4"
abbreviation ENOMEM :: int where "ENOMEM \<equiv> 12"
abbreviation ENODEV :: int where "ENODEV \<equiv> 19"

text \<open>
  Modelled from the spec: the kernel macro \<^verbatim>\<open>BIT(nr)\<close>, which is
  \<^verbatim>\<open>1UL << nr\<close> and is declared outside the files at hand. The spec speaks of
  bitmasks with one bit per line or channel.
\<close>

definition BIT :: "nat \<Rightarrow> ulong" where
  "BIT nr = push_bit nr 1"

text \<open>
  Modelled from the spec: the bit-scan primitive \<^verbatim>\<open>__ffs(unsigned long word)\<close>,
  declared outside the files at hand. It returns the index of the lowest set bit, and its
  result is undefined when no bit is set; \<open>None\<close> stands for that case.
\<close>

definition kernel_ffs :: "ulong \<Rightarrow> nat option" where
  "kernel_ffs word = List.find (bit word) [0..<64]"

text \<open>
  C's compound assignments \<^verbatim>\<open>x |= m\<close> and \<^verbatim>\<open>x &= m\<close> on a narrow
  \<open>x\<close> and an \<^verbatim>\<open>unsigned long\<close> \<open>m\<close>: \<open>x\<close> is zero-extended, the
  operation is done on 64 bits and the result is truncated to the width of \<open>x\<close>.
\<close>

definition or_assign :: "'a::len word \<Rightarrow> ulong \<Rightarrow> 'a word" where
  "or_assign x m = ucast ((ucast x :: ulong) OR m)"

definition and_assign :: "'a::len word \<Rightarrow> ulong \<Rightarrow> 'a word" where
  "and_assign x m = ucast ((ucast x :: ulong) AND m)"

subsection \<open>Data\<close>

text \<open>
  \<^verbatim>\<open>struct iointc_handler_data\<close> without its back pointer, and
  \<^verbatim>\<open>struct iointc_priv\<close> without the register base, the generic chip and the
  LPC flag, none of which \<^verbatim>\<open>validate_parent_mask\<close> reads or writes.
\<close>

record iointc_handler_data =
  parent_int_map :: u32

record iointc_priv =
  map_cache :: "u8 list"
  handler :: "iointc_handler_data list"
  possible_parent_mask :: u8

text \<open>
  The two \<^verbatim>\<open>pr_warn\<close> messages, "Found homeless IRQ %d, map to INT%d" and
  "IRQ %d have mutiple parents, map to INT%d", each with its line and its parent. The
  kernel log is modelled as the list of the messages printed, oldest first.
\<close>

datatype warning =
  Homeless_IRQ nat nat
  | Multiple_Parents nat nat

text \<open>
  What C leaves undefined: \<^verbatim>\<open>__ffs(0)\<close>, and an index outside an array.
\<close>

datatype fault = Ffs_Of_Zero | Index_Out_Of_Range

text \<open>
  \<^verbatim>\<open>priv->handler[i].parent_int_map = f(priv->handler[i].parent_int_map)\<close>
\<close>

definition modify_parent_int_map ::
  "nat \<Rightarrow> (u32 \<Rightarrow> u32) \<Rightarrow> iointc_priv \<Rightarrow> fault + iointc_priv" where
  "modify_parent_int_map i f priv =
     (if i < length (handler priv)
      then Inr (priv\<lparr>handler := (handler priv)
                  [i := (handler priv ! i)\<lparr>parent_int_map := f (parent_int_map (handler priv ! i))\<rparr>]\<rparr>)
      else Inl Index_Out_Of_Range)"

text \<open>A \<^verbatim>\<open>for\<close> loop over the given indices; it stops at the first fault.\<close>

fun for_loop :: "nat list \<Rightarrow> (nat \<Rightarrow> 's \<Rightarrow> fault + 's) \<Rightarrow> 's \<Rightarrow> fault + 's" where
  "for_loop [] body s = Inr s"
| "for_loop (i # is) body s =
     (case body i s of Inl e \<Rightarrow> Inl e | Inr s' \<Rightarrow> for_loop is body s')"

subsection \<open>\<^verbatim>\<open>validate_parent_mask\<close>\<close>

text \<open>
  The body of the first loop (lines 168 to 178): an unavailable parent is skipped, an
  available one takes its hint and updates the two masks.
\<close>

definition collect_parent ::
  "u32 list \<Rightarrow> nat \<Rightarrow> iointc_priv \<times> u32 \<times> u32 \<Rightarrow> fault + iointc_priv \<times> u32 \<times> u32" where
  "collect_parent of_parent_int_map i = (\<lambda>(priv, proceed_mask, duplicated_mask).
     if (ucast (possible_parent_mask priv) :: ulong) AND BIT i = 0
     then Inr (priv, proceed_mask, duplicated_mask)
     else if i < length of_parent_int_map
     then (case modify_parent_int_map i (\<lambda>_. of_parent_int_map ! i) priv of
             Inl e \<Rightarrow> Inl e
           | Inr priv \<Rightarrow>
               Inr (priv,
                    proceed_mask OR parent_int_map (handler priv ! i),
                    duplicated_mask OR (parent_int_map (handler priv ! i) AND proceed_mask)))
     else Inl Index_Out_Of_Range)"

text \<open>One round of the loop for lines with no map bit set (lines 181 to 188).\<close>

definition homeless_step ::
  "nat \<Rightarrow> iointc_priv \<times> u32 \<times> warning list \<Rightarrow> fault + iointc_priv \<times> u32 \<times> warning list" where
  "homeless_step fallback_parent = (\<lambda>(priv, proceed_mask, warnings).
     case kernel_ffs (ucast (NOT proceed_mask)) of
       None \<Rightarrow> Inl Ffs_Of_Zero
     | Some b \<Rightarrow>
         (case modify_parent_int_map fallback_parent (\<lambda>m. or_assign m (BIT b)) priv of
            Inl e \<Rightarrow> Inl e
          | Inr priv \<Rightarrow>
              Inr (priv, or_assign proceed_mask (BIT b),
                   warnings @ [Homeless_IRQ b fallback_parent])))"

text \<open>
  One round of the loop for lines with several map bits set (lines 191 to 202): the bit is
  cleared in all four parents, then set in the fallback parent.
\<close>

definition duplicated_step ::
  "nat \<Rightarrow> iointc_priv \<times> u32 \<times> warning list \<Rightarrow> fault + iointc_priv \<times> u32 \<times> warning list" where
  "duplicated_step fallback_parent = (\<lambda>(priv, duplicated_mask, warnings).
     case kernel_ffs (ucast duplicated_mask) of
       None \<Rightarrow> Inl Ffs_Of_Zero
     | Some b \<Rightarrow>
         (case for_loop [0..<IOINTC_NUM_PARENT]
                 (\<lambda>i. modify_parent_int_map i (\<lambda>m. and_assign m (NOT (BIT b)))) priv of
            Inl e \<Rightarrow> Inl e
          | Inr priv \<Rightarrow>
              (case modify_parent_int_map fallback_parent (\<lambda>m. or_assign m (BIT b)) priv of
                 Inl e \<Rightarrow> Inl e
               | Inr priv \<Rightarrow>
                   Inr (priv, and_assign duplicated_mask (NOT (BIT b)),
                        warnings @ [Multiple_Parents b fallback_parent]))))"

text \<open>One round of the inner loop that fills the map cache (lines 208 to 213).\<close>

definition map_cache_step ::
  "nat \<Rightarrow> iointc_priv \<times> u32 \<Rightarrow> fault + iointc_priv \<times> u32" where
  "map_cache_step i = (\<lambda>(priv, pending).
     case kernel_ffs (ucast pending) of
       None \<Rightarrow> Inl Ffs_Of_Zero
     | Some b \<Rightarrow>
         if b < length (map_cache priv)
         then Inr (priv\<lparr>map_cache := (map_cache priv)
                     [b := ucast (push_bit IOINTC_SHIFT_INTx (BIT i))]\<rparr>,
                   and_assign pending (NOT (BIT b)))
         else Inl Index_Out_Of_Range)"

text \<open>
  The lines of a mask, ascending. Each \<^verbatim>\<open>while\<close> loop below tests a mask and
  takes one line out of it in every round, so the number of lines left is its measure.
\<close>

definition lines_of :: "u32 \<Rightarrow> nat list" where
  "lines_of m = filter (bit m) [0..<IOINTC_CHIP_IRQ]"

subsection \<open>Facts about the primitives\<close>

lemma kernel_ffs_Some_iff:
  "kernel_ffs w = Some b \<longleftrightarrow> bit w b \<and> (\<forall>n<b. \<not> bit w n)"
proof -
  have "bit w b \<Longrightarrow> b < 64"
    using bit_imp_le_length [of w b] by simp
  then show ?thesis
    unfolding kernel_ffs_def find_Some_iff by auto
qed

lemma kernel_ffs_None_iff: "kernel_ffs w = None \<longleftrightarrow> w = 0"
proof -
  have "w = 0 \<longleftrightarrow> (\<forall>n<64. \<not> bit w n)"
    by (auto simp add: bit_eq_iff dest: bit_imp_le_length)
  then show ?thesis
    unfolding kernel_ffs_def find_None_iff by auto
qed

lemma bit_BIT: "bit (BIT b) n \<longleftrightarrow> n = b \<and> b < 64"
  by (auto simp add: BIT_def bit_simps)

lemma bit_u32_less: "bit (x :: u32) n \<Longrightarrow> n < 32"
  using bit_imp_le_length [of x n] by simp

lemma bit_u8_less: "bit (x :: u8) n \<Longrightarrow> n < 8"
  using bit_imp_le_length [of x n] by simp

lemma bit_or_assign_BIT:
  "bit (or_assign (x :: u32) (BIT b)) n \<longleftrightarrow> bit x n \<or> (n = b \<and> b < 32)"
  by (auto simp add: or_assign_def bit_simps bit_BIT dest: bit_u32_less)

lemma bit_or_assign_BIT_u8:
  "bit (or_assign (x :: u8) (BIT b)) n \<longleftrightarrow> bit x n \<or> (n = b \<and> b < 8)"
  by (auto simp add: or_assign_def bit_simps bit_BIT dest: bit_u8_less)

lemma bit_and_assign_NOT_BIT:
  "bit (and_assign (x :: u32) (NOT (BIT b))) n \<longleftrightarrow> bit x n \<and> n \<noteq> b"
  by (auto simp add: and_assign_def bit_simps bit_BIT dest: bit_u32_less)

lemma parent_available_iff:
  "(ucast (m :: u8) :: ulong) AND BIT i = 0 \<longleftrightarrow> \<not> bit m i"
proof
  assume "(ucast m :: ulong) AND BIT i = 0"
  then have "\<not> bit ((ucast m :: ulong) AND BIT i) i" by simp
  then show "\<not> bit m i"
    by (auto simp add: bit_simps bit_BIT dest: bit_u8_less)
next
  assume "\<not> bit m i"
  then show "(ucast m :: ulong) AND BIT i = 0"
    by (intro bit_eqI) (auto simp add: bit_simps bit_BIT)
qed

lemma ffs_u32_Some:
  "kernel_ffs (ucast (m :: u32)) = Some b \<longleftrightarrow> bit m b \<and> (\<forall>n<b. \<not> bit m n)"
  by (auto simp add: kernel_ffs_Some_iff bit_simps dest: bit_u32_less)

lemma ffs_u8_Some:
  "kernel_ffs (ucast (m :: u8)) = Some b \<longleftrightarrow> bit m b \<and> (\<forall>n<b. \<not> bit m n)"
  by (auto simp add: kernel_ffs_Some_iff bit_simps dest: bit_u8_less)

lemma ffs_u32_None: "kernel_ffs (ucast (m :: u32)) = None \<longleftrightarrow> m = 0"
proof -
  have "(ucast m :: ulong) = 0 \<longleftrightarrow> m = 0"
    by (auto simp add: bit_eq_iff bit_simps dest: bit_u32_less)
  then show ?thesis by (simp add: kernel_ffs_None_iff)
qed

lemma ffs_u8_None: "kernel_ffs (ucast (m :: u8)) = None \<longleftrightarrow> m = 0"
proof -
  have "(ucast m :: ulong) = 0 \<longleftrightarrow> m = 0"
    by (auto simp add: bit_eq_iff bit_simps dest: bit_u8_less)
  then show ?thesis by (simp add: kernel_ffs_None_iff)
qed

subsection \<open>Each round of a \<^verbatim>\<open>while\<close> loop consumes one line\<close>

lemma lines_of_clear:
  assumes "bit m b" and "\<And>n. bit m' n \<longleftrightarrow> bit m n \<and> n \<noteq> b"
  shows "length (lines_of m') < length (lines_of m)"
proof -
  have "lines_of m' = filter (\<lambda>n. n \<noteq> b) (lines_of m)"
    using assms(2) by (auto simp add: lines_of_def intro: filter_cong)
  moreover have "b \<in> set (lines_of m)"
    using assms(1) bit_u32_less [of m b] by (simp add: lines_of_def)
  ultimately show ?thesis
    by (simp add: length_filter_less)
qed

lemma homeless_step_decreases:
  assumes "homeless_step fb (priv, m, w) = Inr (priv', m', w')"
  shows "length (lines_of (NOT m')) < length (lines_of (NOT m))"
proof -
  from assms obtain b where b: "kernel_ffs (ucast (NOT m)) = Some b"
    and m': "m' = or_assign m (BIT b)"
    by (auto simp add: homeless_step_def split: option.splits sum.splits)
  from b have "bit (NOT m) b"
    by (simp add: ffs_u32_Some)
  moreover have "bit (NOT m') n \<longleftrightarrow> bit (NOT m) n \<and> n \<noteq> b" for n
    by (auto simp add: m' bit_not_iff bit_or_assign_BIT)
  ultimately show ?thesis
    by (rule lines_of_clear)
qed

lemma duplicated_step_decreases:
  assumes "duplicated_step fb (priv, m, w) = Inr (priv', m', w')"
  shows "length (lines_of m') < length (lines_of m)"
proof -
  from assms obtain b where b: "kernel_ffs (ucast m) = Some b"
    and m': "m' = and_assign m (NOT (BIT b))"
    by (auto simp add: duplicated_step_def split: option.splits sum.splits)
  from b have "bit m b"
    by (simp add: ffs_u32_Some)
  moreover have "bit m' n \<longleftrightarrow> bit m n \<and> n \<noteq> b" for n
    by (simp add: m' bit_and_assign_NOT_BIT)
  ultimately show ?thesis
    by (rule lines_of_clear)
qed

lemma map_cache_step_decreases:
  assumes "map_cache_step i (priv, m) = Inr (priv', m')"
  shows "length (lines_of m') < length (lines_of m)"
proof -
  from assms obtain b where b: "kernel_ffs (ucast m) = Some b"
    and m': "m' = and_assign m (NOT (BIT b))"
    by (auto simp add: map_cache_step_def split: option.splits if_splits)
  from b have "bit m b"
    by (simp add: ffs_u32_Some)
  moreover have "bit m' n \<longleftrightarrow> bit m n \<and> n \<noteq> b" for n
    by (simp add: m' bit_and_assign_NOT_BIT)
  ultimately show ?thesis
    by (rule lines_of_clear)
qed

subsection \<open>The loops and the function\<close>

text \<open>\<^verbatim>\<open>while (~proceed_mask) { ... }\<close>, lines 181 to 188.\<close>

function homeless_loop ::
  "nat \<Rightarrow> iointc_priv \<times> u32 \<times> warning list \<Rightarrow> fault + iointc_priv \<times> u32 \<times> warning list" where
  "homeless_loop fallback_parent (priv, proceed_mask, warnings) =
     (if NOT proceed_mask = 0 then Inr (priv, proceed_mask, warnings)
      else case homeless_step fallback_parent (priv, proceed_mask, warnings) of
             Inl e \<Rightarrow> Inl e
           | Inr s \<Rightarrow> homeless_loop fallback_parent s)"
  by pat_completeness auto
termination
  by (relation "measure (\<lambda>(fallback_parent, priv, proceed_mask, warnings).
        length (lines_of (NOT proceed_mask)))")
    (auto dest: homeless_step_decreases)

text \<open>\<^verbatim>\<open>while (duplicated_mask) { ... }\<close>, lines 191 to 202.\<close>

function duplicated_loop ::
  "nat \<Rightarrow> iointc_priv \<times> u32 \<times> warning list \<Rightarrow> fault + iointc_priv \<times> u32 \<times> warning list" where
  "duplicated_loop fallback_parent (priv, duplicated_mask, warnings) =
     (if duplicated_mask = 0 then Inr (priv, duplicated_mask, warnings)
      else case duplicated_step fallback_parent (priv, duplicated_mask, warnings) of
             Inl e \<Rightarrow> Inl e
           | Inr s \<Rightarrow> duplicated_loop fallback_parent s)"
  by pat_completeness auto
termination
  by (relation "measure (\<lambda>(fallback_parent, priv, duplicated_mask, warnings).
        length (lines_of duplicated_mask))")
    (auto dest: duplicated_step_decreases)

text \<open>\<^verbatim>\<open>while (pending) { ... }\<close>, lines 208 to 213.\<close>

function map_cache_loop :: "nat \<Rightarrow> iointc_priv \<times> u32 \<Rightarrow> fault + iointc_priv \<times> u32" where
  "map_cache_loop i (priv, pending) =
     (if pending = 0 then Inr (priv, pending)
      else case map_cache_step i (priv, pending) of
             Inl e \<Rightarrow> Inl e
           | Inr s \<Rightarrow> map_cache_loop i s)"
  by pat_completeness auto
termination
  by (relation "measure (\<lambda>(i, priv, pending). length (lines_of pending))")
    (auto dest: map_cache_step_decreases)

text \<open>
  The body of the last \<^verbatim>\<open>for\<close> loop (lines 205 to 214): \<open>pending\<close> starts as
  the map of parent \<open>i\<close> and is local to the round.
\<close>

definition generate_map_cache :: "nat \<Rightarrow> iointc_priv \<Rightarrow> fault + iointc_priv" where
  "generate_map_cache i priv =
     (if i < length (handler priv)
      then (case map_cache_loop i (priv, parent_int_map (handler priv ! i)) of
              Inl e \<Rightarrow> Inl e
            | Inr (priv, pending) \<Rightarrow> Inr priv)
      else Inl Index_Out_Of_Range)"

text \<open>
  \<^verbatim>\<open>validate_parent_mask\<close> (lines 162 to 215). The function is
  \<^verbatim>\<open>void\<close> and works on \<open>priv\<close> in place; here it returns the new
  \<open>priv\<close> and the warnings it printed, in order, or the fault it ran into.
  \<open>fallback_parent\<close> is computed first, before any loop, as in the source.
\<close>

definition validate_parent_mask ::
  "iointc_priv \<Rightarrow> u32 list \<Rightarrow> fault + iointc_priv \<times> warning list" where
  "validate_parent_mask priv of_parent_int_map =
     (case kernel_ffs (ucast (possible_parent_mask priv)) of
        None \<Rightarrow> Inl Ffs_Of_Zero
      | Some fallback_parent \<Rightarrow>
     (case for_loop [0..<IOINTC_NUM_PARENT] (collect_parent of_parent_int_map) (priv, 0, 0) of
        Inl e \<Rightarrow> Inl e
      | Inr (priv, proceed_mask, duplicated_mask) \<Rightarrow>
     (case homeless_loop fallback_parent (priv, proceed_mask, []) of
        Inl e \<Rightarrow> Inl e
      | Inr (priv, proceed_mask, warnings) \<Rightarrow>
     (case duplicated_loop fallback_parent (priv, duplicated_mask, warnings) of
        Inl e \<Rightarrow> Inl e
      | Inr (priv, duplicated_mask, warnings) \<Rightarrow>
     (case for_loop [0..<IOINTC_NUM_PARENT] generate_map_cache priv of
        Inl e \<Rightarrow> Inl e
      | Inr priv \<Rightarrow> Inr (priv, warnings))))))"

text \<open>
  \<open>priv\<close> as \<^verbatim>\<open>kzalloc\<close> returns it (line 232): every byte zero.
\<close>

definition kzalloc_priv :: iointc_priv where
  "kzalloc_priv =
     \<lparr>map_cache = replicate IOINTC_CHIP_IRQ 0,
      handler = replicate IOINTC_NUM_PARENT \<lparr>parent_int_map = 0\<rparr>,
      possible_parent_mask = 0\<rparr>"

text \<open>
  The body of the loop of lines 245 to 249: \<open>parent_irq i\<close> stands for the answer of
  \<^verbatim>\<open>of_irq_get_byname(node, parent_names[i])\<close>, and a parent that has an
  interrupt gets its bit in the mask.
\<close>

definition probe_parent :: "(nat \<Rightarrow> int) \<Rightarrow> nat \<Rightarrow> iointc_priv \<Rightarrow> iointc_priv" where
  "probe_parent parent_irq i priv =
     (if parent_irq i \<ge> 0
      then priv\<lparr>possible_parent_mask := or_assign (possible_parent_mask priv) (BIT i)\<rparr>
      else priv)"

text \<open>
  The steps of \<^verbatim>\<open>iointc_of_init\<close> that decide what
  \<^verbatim>\<open>validate_parent_mask\<close> sees and does, on their own: the zeroed
  \<open>priv\<close>, the loop over the parent names, the check for no parent (lines 252 to
  256) and the call (line 291) on the four words of
  \<^verbatim>\<open>u32 of_parent_int_map[IOINTC_NUM_PARENT]\<close>. The result is \<open>priv\<close>
  as \<^verbatim>\<open>validate_parent_mask\<close> leaves it, with its warnings. This is not the
  whole function: \<open>iointc_of_init\<close> below has the other exits and what follows
  the call.
\<close>

datatype init_error = Errno int | Undefined_Behaviour fault

definition probe_and_validate ::
  "(nat \<Rightarrow> int) \<Rightarrow> u32 list \<Rightarrow> init_error + iointc_priv \<times> warning list" where
  "probe_and_validate parent_irq of_parent_int_map =
     (let priv = fold (probe_parent parent_irq) [0..<IOINTC_NUM_PARENT] kzalloc_priv
      in if possible_parent_mask priv = 0 then Inl (Errno (- ENOMEM))
         else (case validate_parent_mask priv of_parent_int_map of
                 Inl e \<Rightarrow> Inl (Undefined_Behaviour e)
               | Inr r \<Rightarrow> Inr r))"

subsection \<open>\<^verbatim>\<open>iointc_of_init\<close>\<close>

text \<open>
  Modelled from the spec: the kernel macro \<^verbatim>\<open>GENMASK(h, l)\<close>, declared
  outside the files at hand: the \<^verbatim>\<open>unsigned long\<close> with bits \<open>l\<close> to
  \<open>h\<close> set.
\<close>

definition GENMASK :: "nat \<Rightarrow> nat \<Rightarrow> ulong" where
  "GENMASK h l = mask (Suc h) AND NOT (mask l)"

text \<open>\<^verbatim>\<open>map_cache_set_core\<close> (lines 82 to 86).\<close>

definition map_cache_set_core :: "iointc_priv \<Rightarrow> nat \<Rightarrow> nat \<Rightarrow> fault + iointc_priv" where
  "map_cache_set_core priv irq core =
     (if irq < length (map_cache priv)
      then Inr (priv\<lparr>map_cache := (map_cache priv)
                  [irq := or_assign (and_assign (map_cache priv ! irq) (NOT (GENMASK 3 0))) (BIT core)]\<rparr>)
      else Inl Index_Out_Of_Range)"

text \<open>
  What the kernel answers to \<^verbatim>\<open>iointc_of_init\<close>, in the order it is asked:
  whether \<^verbatim>\<open>kzalloc\<close> and \<^verbatim>\<open>of_iomap\<close> return a pointer, the
  interrupt of each parent name from \<^verbatim>\<open>of_irq_get_byname\<close>, the return value
  of \<^verbatim>\<open>of_property_read_variable_u32_array\<close> and the four words it left in
  \<^verbatim>\<open>of_parent_int_map\<close>, whether \<^verbatim>\<open>irq_domain_add_linear\<close>
  returns a domain, the return value of
  \<^verbatim>\<open>irq_alloc_domain_generic_chips\<close>, and
  \<^verbatim>\<open>loongson_sysconf.boot_cpu_id\<close>.
\<close>

record init_env =
  kzalloc_ok :: bool
  of_iomap_ok :: bool
  irq_by_name :: "nat \<Rightarrow> int"
  prop_sz :: int
  prop_cells :: "u32 list"
  domain_ok :: bool
  chips_err :: int
  boot_cpu_id :: nat

text \<open>
  The four \<^verbatim>\<open>pr_err\<close> messages of the function: "No parent",
  "No parent_int_map", "cannot add IRQ domain", "unable to register IRQ domain".
\<close>

datatype pr_err =
  No_parent
  | No_parent_int_map
  | Cannot_add_IRQ_domain
  | Unable_to_register_IRQ_domain

text \<open>
  A failure of \<^verbatim>\<open>iointc_of_init\<close> is the negative
  \<^verbatim>\<open>errno\<close> it returns with the message it printed, if any, or a fault
  inside the code it runs.
\<close>

datatype init_failure = Failed int "pr_err option" | Faulted fault

text \<open>
  \<^verbatim>\<open>iointc_of_init\<close> (lines 219 to 335), every exit in the order of the
  source: no memory (line 233), no register mapping (line 237), no parent (line 252),
  fewer than four cells read from \<^verbatim>\<open>loongson,parent_int_map\<close> (line 261),
  no interrupt domain (line 270), no generic chips (line 279); then
  \<^verbatim>\<open>validate_parent_mask\<close> (line 291) and the loop that sets the core of
  every line (lines 293 to 296); then \<^verbatim>\<open>return 0\<close>, here the final
  \<open>priv\<close> with the warnings. The register writes, the LPC flag, the fields of the
  generic chip and the chained handlers act on kernel objects outside \<open>priv\<close>'s
  three fields, cannot fail, and are left out.
\<close>

definition iointc_of_init :: "init_env \<Rightarrow> init_failure + iointc_priv \<times> warning list" where
  "iointc_of_init env =
     (if \<not> kzalloc_ok env then Inl (Failed (- ENOMEM) None)
      else if \<not> of_iomap_ok env then Inl (Failed (- ENODEV) None)
      else
        let priv = fold (probe_parent (irq_by_name env)) [0..<IOINTC_NUM_PARENT] kzalloc_priv
        in if possible_parent_mask priv = 0 then Inl (Failed (- ENOMEM) (Some No_parent))
           else if prop_sz env < 4 then Inl (Failed (- ENODEV) (Some No_parent_int_map))
           else if \<not> domain_ok env then Inl (Failed (- ENOMEM) (Some Cannot_add_IRQ_domain))
           else if chips_err env \<noteq> 0
             then Inl (Failed (- ENOMEM) (Some Unable_to_register_IRQ_domain))
           else (case validate_parent_mask priv (prop_cells env) of
                   Inl f \<Rightarrow> Inl (Faulted f)
                 | Inr (priv, warnings) \<Rightarrow>
                     (case for_loop [0..<IOINTC_CHIP_IRQ]
                             (\<lambda>i priv. map_cache_set_core priv i (boot_cpu_id env)) priv of
                        Inl f \<Rightarrow> Inl (Faulted f)
                      | Inr priv \<Rightarrow> Inr (priv, warnings))))"

subsection \<open>Vocabulary for the statements\<close>

text \<open>
  Parent \<open>c\<close> is available in \<open>priv\<close> and the hint table gives it line \<open>l\<close>.
\<close>

definition claims :: "iointc_priv \<Rightarrow> u32 list \<Rightarrow> nat \<Rightarrow> nat \<Rightarrow> bool" where
  "claims priv hints c l \<longleftrightarrow>
     bit (possible_parent_mask priv) c \<and> bit (hints ! c) l"

text \<open>
  The same, seen from \<open>probe_and_validate\<close>: parent \<open>c\<close> has an interrupt
  (\<^verbatim>\<open>parent_irq[c] >= 0\<close>) and the hint table gives it line \<open>l\<close>.
\<close>

definition wants :: "(nat \<Rightarrow> int) \<Rightarrow> u32 list \<Rightarrow> nat \<Rightarrow> nat \<Rightarrow> bool" where
  "wants parent_irq hints c l \<longleftrightarrow> 0 \<le> parent_irq c \<and> bit (hints ! c) l"

text \<open>
  The map cache read back as a hint table, for the statement of idempotence: parent
  \<open>c\<close> claims line \<open>l\<close> exactly when the entry of \<open>l\<close> is the byte of
  \<open>c\<close>.
\<close>

definition assignment_hints :: "u8 list \<Rightarrow> u32 list" where
  "assignment_hints cache =
     map (\<lambda>c. horner_sum of_bool 2
            (map (\<lambda>l. cache ! l = ucast (push_bit IOINTC_SHIFT_INTx (BIT c))) [0..<IOINTC_CHIP_IRQ]))
       [0..<IOINTC_NUM_PARENT]"

text \<open>
  A \<^verbatim>\<open>while\<close> loop with a budget of rounds, to count the rounds of the three
  loops: \<open>None\<close> when the budget runs out before the loop ends.
\<close>

fun run_while ::
  "nat \<Rightarrow> ('s \<Rightarrow> bool) \<Rightarrow> ('s \<Rightarrow> fault + 's) \<Rightarrow> 's \<Rightarrow> (fault + 's) option" where
  "run_while 0 continue step s = (if continue s then None else Some (Inr s))"
| "run_while (Suc n) continue step s =
     (if continue s
      then (case step s of Inl e \<Rightarrow> Some (Inl e) | Inr s' \<Rightarrow> run_while n continue step s')
      else Some (Inr s))"

text \<open>
  Two boards for the examples: one with all four parent interrupts wired, and one with
  only \<^verbatim>\<open>int0\<close> and \<^verbatim>\<open>int1\<close>, where
  \<^verbatim>\<open>of_irq_get_byname\<close> answers with a negative number for the other two.
\<close>

definition all_four_parents :: "nat \<Rightarrow> int" where
  "all_four_parents c = 2 + int c"

definition int0_int1_only :: "nat \<Rightarrow> int" where
  "int0_int1_only c = (if c < 2 then 2 + int c else - 1)"

section \<open>What the loops compute\<close>

subsection \<open>Faults\<close>

declare homeless_loop.simps [simp del] duplicated_loop.simps [simp del]
  map_cache_loop.simps [simp del]

lemma for_loop_append:
  "for_loop (xs @ ys) body s =
     (case for_loop xs body s of Inl e \<Rightarrow> Inl e | Inr s' \<Rightarrow> for_loop ys body s')"
  by (induction xs arbitrary: s) (auto split: sum.splits)

lemma for_loop_fault:
  assumes "\<And>i s. body i s \<noteq> Inl f"
  shows "for_loop xs body s \<noteq> Inl f"
  using assms by (induction xs arbitrary: s) (auto split: sum.splits)

lemma modify_parent_int_map_fault:
  "modify_parent_int_map i f priv \<noteq> Inl Ffs_Of_Zero"
  by (simp add: modify_parent_int_map_def)

lemma collect_parent_fault: "collect_parent hints i s \<noteq> Inl Ffs_Of_Zero"
  by (auto simp add: collect_parent_def modify_parent_int_map_def split: prod.splits)

lemma homeless_step_fault:
  "homeless_step fb (priv, m, w) = Inl Ffs_Of_Zero \<Longrightarrow> NOT m = 0"
  by (auto simp add: homeless_step_def ffs_u32_None modify_parent_int_map_def
      split: option.splits sum.splits if_splits)

lemma duplicated_step_fault:
  "duplicated_step fb (priv, m, w) = Inl Ffs_Of_Zero \<Longrightarrow> m = 0"
  using for_loop_fault [of "\<lambda>i. modify_parent_int_map i f" Ffs_Of_Zero for f,
      OF modify_parent_int_map_fault]
  by (auto simp add: duplicated_step_def ffs_u32_None modify_parent_int_map_fault
      split: option.splits sum.splits)

lemma map_cache_step_fault:
  "map_cache_step i (priv, m) = Inl Ffs_Of_Zero \<Longrightarrow> m = 0"
  by (auto simp add: map_cache_step_def ffs_u32_None split: option.splits if_splits)

lemma homeless_loop_fault: "homeless_loop fb s \<noteq> Inl Ffs_Of_Zero"
proof (induction fb s rule: homeless_loop.induct)
  case (1 fb priv m w)
  show ?case
  proof (cases "NOT m = 0")
    case True
    then show ?thesis by (simp add: homeless_loop.simps)
  next
    case False
    with 1 homeless_step_fault [of fb priv m w] show ?thesis
      by (auto simp add: homeless_loop.simps [of fb priv m w] split: sum.splits)
  qed
qed

lemma duplicated_loop_fault: "duplicated_loop fb s \<noteq> Inl Ffs_Of_Zero"
proof (induction fb s rule: duplicated_loop.induct)
  case (1 fb priv m w)
  show ?case
  proof (cases "m = 0")
    case True
    then show ?thesis by (simp add: duplicated_loop.simps)
  next
    case False
    with 1 duplicated_step_fault [of fb priv m w] show ?thesis
      by (auto simp add: duplicated_loop.simps [of fb priv m w] split: sum.splits)
  qed
qed

lemma map_cache_loop_fault: "map_cache_loop i s \<noteq> Inl Ffs_Of_Zero"
proof (induction i s rule: map_cache_loop.induct)
  case (1 i priv m)
  show ?case
  proof (cases "m = 0")
    case True
    then show ?thesis by (simp add: map_cache_loop.simps)
  next
    case False
    with 1 map_cache_step_fault [of i priv m] show ?thesis
      by (auto simp add: map_cache_loop.simps [of i priv m] split: sum.splits)
  qed
qed

lemma generate_map_cache_fault: "generate_map_cache i priv \<noteq> Inl Ffs_Of_Zero"
  using map_cache_loop_fault [of i "(priv, parent_int_map (handler priv ! i))"]
  by (auto simp add: generate_map_cache_def split: sum.splits)

lemma validate_parent_mask_ffs_fault:
  assumes "validate_parent_mask priv of_parent_int_map = Inl Ffs_Of_Zero"
  shows "possible_parent_mask priv = 0"
proof (rule ccontr)
  assume "possible_parent_mask priv \<noteq> 0"
  then obtain fb where "kernel_ffs (ucast (possible_parent_mask priv)) = Some fb"
    using ffs_u8_None [of "possible_parent_mask priv"] by auto
  with assms show False
    using for_loop_fault [of "collect_parent of_parent_int_map" Ffs_Of_Zero, OF collect_parent_fault]
      for_loop_fault [of generate_map_cache Ffs_Of_Zero, OF generate_map_cache_fault]
      homeless_loop_fault duplicated_loop_fault
    by (auto simp add: validate_parent_mask_def split: sum.splits)
qed

lemma probe_and_validate_ffs_fault:
  "probe_and_validate parent_irq of_parent_int_map \<noteq> Inl (Undefined_Behaviour Ffs_Of_Zero)"
  using validate_parent_mask_ffs_fault
  by (auto simp add: probe_and_validate_def Let_def split: sum.splits)

lemma validate_parent_mask_no_parent:
  assumes "possible_parent_mask priv = 0"
  shows "validate_parent_mask priv of_parent_int_map = Inl Ffs_Of_Zero"
proof -
  have "kernel_ffs 0 = None"
    by (simp add: kernel_ffs_None_iff)
  with assms show ?thesis
    by (simp add: validate_parent_mask_def)
qed

subsection \<open>The first loop: hints of the available parents\<close>

lemma collect_parent_skip:
  assumes "\<not> bit (possible_parent_mask priv) i"
  shows "collect_parent hints i (priv, p, d) = Inr (priv, p, d)"
  using assms by (simp add: collect_parent_def parent_available_iff)

lemma collect_parent_take:
  assumes "bit (possible_parent_mask priv) i" "i < length hints" "i < length (handler priv)"
  shows "collect_parent hints i (priv, p, d) =
    Inr (priv\<lparr>handler := (handler priv)[i := (handler priv ! i)\<lparr>parent_int_map := hints ! i\<rparr>]\<rparr>,
         p OR hints ! i, d OR (hints ! i AND p))"
  using assms by (simp add: collect_parent_def parent_available_iff modify_parent_int_map_def)

lemma collect_loop_result:
  assumes "length (handler priv) = 4" "length hints = 4" "k \<le> 4"
  shows "\<exists>hs p d. for_loop [0..<k] (collect_parent hints) (priv, 0, 0) = Inr (priv\<lparr>handler := hs\<rparr>, p, d)
     \<and> length hs = 4
     \<and> (\<forall>i<4. parent_int_map (hs ! i) =
          (if i < k \<and> bit (possible_parent_mask priv) i then hints ! i
           else parent_int_map (handler priv ! i)))
     \<and> (\<forall>n. bit p n \<longleftrightarrow> (\<exists>i<k. bit (possible_parent_mask priv) i \<and> bit (hints ! i) n))
     \<and> (\<forall>n. bit d n \<longleftrightarrow> (\<exists>i<k. \<exists>j<i. bit (possible_parent_mask priv) i
            \<and> bit (possible_parent_mask priv) j \<and> bit (hints ! i) n \<and> bit (hints ! j) n))"
  using assms(3)
proof (induction k)
  case 0
  have "priv\<lparr>handler := handler priv\<rparr> = priv" by simp
  then show ?case
    using assms(1) by (intro exI [of _ "handler priv"] exI [of _ 0]) simp
next
  case (Suc k)
  then obtain hs p d where run: "for_loop [0..<k] (collect_parent hints) (priv, 0, 0) = Inr (priv\<lparr>handler := hs\<rparr>, p, d)"
    and len: "length hs = 4"
    and hs: "\<And>i. i < 4 \<Longrightarrow> parent_int_map (hs ! i) =
          (if i < k \<and> bit (possible_parent_mask priv) i then hints ! i
           else parent_int_map (handler priv ! i))"
    and p: "\<And>n. bit p n \<longleftrightarrow> (\<exists>i<k. bit (possible_parent_mask priv) i \<and> bit (hints ! i) n)"
    and d: "\<And>n. bit d n \<longleftrightarrow> (\<exists>i<k. \<exists>j<i. bit (possible_parent_mask priv) i
            \<and> bit (possible_parent_mask priv) j \<and> bit (hints ! i) n \<and> bit (hints ! j) n)"
    by auto
  from Suc.prems have k: "k < 4" by simp
  show ?case
  proof (cases "bit (possible_parent_mask priv) k")
    case False
    then have "for_loop [0..<Suc k] (collect_parent hints) (priv, 0, 0) = Inr (priv\<lparr>handler := hs\<rparr>, p, d)"
      by (simp add: for_loop_append run collect_parent_skip)
    moreover have "\<forall>i<4. parent_int_map (hs ! i) =
          (if i < Suc k \<and> bit (possible_parent_mask priv) i then hints ! i
           else parent_int_map (handler priv ! i))"
      using False hs by (auto simp add: less_Suc_eq)
    moreover have "\<forall>n. bit p n \<longleftrightarrow> (\<exists>i<Suc k. bit (possible_parent_mask priv) i \<and> bit (hints ! i) n)"
      using False p by (auto simp add: less_Suc_eq)
    moreover have "\<forall>n. bit d n \<longleftrightarrow> (\<exists>i<Suc k. \<exists>j<i. bit (possible_parent_mask priv) i
            \<and> bit (possible_parent_mask priv) j \<and> bit (hints ! i) n \<and> bit (hints ! j) n)"
      using False d by (auto simp add: less_Suc_eq)
    ultimately show ?thesis
      using len by blast
  next
    case True
    let ?hs = "hs[k := (hs ! k)\<lparr>parent_int_map := hints ! k\<rparr>]"
    from True k len assms(2)
    have "for_loop [0..<Suc k] (collect_parent hints) (priv, 0, 0)
        = Inr (priv\<lparr>handler := ?hs\<rparr>, p OR hints ! k, d OR (hints ! k AND p))"
      by (simp add: for_loop_append run collect_parent_take)
    moreover have "length ?hs = 4"
      using len by simp
    moreover have "\<forall>i<4. parent_int_map (?hs ! i) =
          (if i < Suc k \<and> bit (possible_parent_mask priv) i then hints ! i
           else parent_int_map (handler priv ! i))"
      using True hs k len by (auto simp add: less_Suc_eq nth_list_update)
    moreover have "\<forall>n. bit (p OR hints ! k) n \<longleftrightarrow> (\<exists>i<Suc k. bit (possible_parent_mask priv) i \<and> bit (hints ! i) n)"
      using True p by (auto simp add: less_Suc_eq bit_or_iff)
    moreover have "\<forall>n. bit (d OR (hints ! k AND p)) n \<longleftrightarrow> (\<exists>i<Suc k. \<exists>j<i. bit (possible_parent_mask priv) i
            \<and> bit (possible_parent_mask priv) j \<and> bit (hints ! i) n \<and> bit (hints ! j) n)"
      using True p d by (auto simp add: less_Suc_eq bit_or_iff bit_and_iff)
    ultimately show ?thesis
      by blast
  qed
qed

subsection \<open>The loop for homeless lines\<close>

lemma upt_split_at:
  assumes "b < k"
  shows "[0..<k] = [0..<b] @ b # [Suc b..<k]"
proof -
  have "[0..<k] = [0..<b] @ [b..<k]"
    using assms upt_add_eq_append [of 0 b "k - b"] by simp
  also have "[b..<k] = b # [Suc b..<k]"
    using assms by (rule upt_conv_Cons)
  finally show ?thesis .
qed

lemma filter_upt_split:
  assumes "b < k" "P b" "\<And>n. n < b \<Longrightarrow> \<not> P n"
  shows "filter P [0..<k] = b # filter P [Suc b..<k]"
proof -
  have "filter P [0..<b] = []"
    using assms(3) by (simp add: filter_empty_conv)
  then show ?thesis
    using assms(2) by (simp only: upt_split_at [OF assms(1)] filter_append filter.simps append_Nil if_True)
qed

lemma filter_upt_skip:
  assumes "b < k" "\<And>n. n \<le> b \<Longrightarrow> \<not> P n"
  shows "filter P [0..<k] = filter P [Suc b..<k]"
proof -
  have "filter P [0..<b] = []"
    using assms(2) by (simp add: filter_empty_conv)
  moreover have "\<not> P b"
    using assms(2) by simp
  ultimately show ?thesis
    by (simp only: upt_split_at [OF assms(1)] filter_append filter.simps append_Nil if_False)
qed

lemma lines_of_lowest:
  assumes "bit x b" and "\<And>n. n < b \<Longrightarrow> \<not> bit x n"
    and "\<And>n. bit x' n \<longleftrightarrow> bit x n \<and> n \<noteq> b"
  shows "lines_of x = b # lines_of x'"
proof -
  from assms(1) have b: "b < 32" by (rule bit_u32_less)
  have "lines_of x = b # filter (bit x) [Suc b..<32]"
    unfolding lines_of_def using b assms(1,2) by (rule filter_upt_split)
  moreover have "lines_of x' = filter (bit x') [Suc b..<32]"
    unfolding lines_of_def using b
  proof (rule filter_upt_skip)
    fix n assume "n \<le> b"
    then show "\<not> bit x' n"
      using assms(2) [of n] assms(3) [of n] by (cases "n = b") simp_all
  qed
  moreover have "filter (bit x) [Suc b..<32] = filter (bit x') [Suc b..<32]"
  proof (rule filter_cong [OF refl])
    fix n assume "n \<in> set [Suc b..<32]"
    then have "n \<noteq> b" by simp
    then show "bit x n = bit x' n"
      using assms(3) [of n] by simp
  qed
  ultimately show ?thesis
    by simp
qed

lemma lines_of_zero [simp]: "lines_of 0 = []"
  by (simp add: lines_of_def)

lemma homeless_step_result:
  assumes "NOT m \<noteq> 0" "fb < length (handler priv)"
  shows "\<exists>b. bit (NOT m) b \<and> (\<forall>n<b. \<not> bit (NOT m) n)
     \<and> homeless_step fb (priv, m, w) =
        Inr (priv\<lparr>handler := (handler priv)[fb := (handler priv ! fb)
                \<lparr>parent_int_map := or_assign (parent_int_map (handler priv ! fb)) (BIT b)\<rparr>]\<rparr>,
             or_assign m (BIT b), w @ [Homeless_IRQ b fb])"
proof -
  from assms(1) obtain b where b: "kernel_ffs (ucast (NOT m)) = Some b"
    using ffs_u32_None [of "NOT m"] by auto
  have "bit (NOT m) b \<and> (\<forall>n<b. \<not> bit (NOT m) n)"
    using b ffs_u32_Some [of "NOT m" b] by blast
  moreover from assms(2) have "homeless_step fb (priv, m, w) =
        Inr (priv\<lparr>handler := (handler priv)[fb := (handler priv ! fb)
                \<lparr>parent_int_map := or_assign (parent_int_map (handler priv ! fb)) (BIT b)\<rparr>]\<rparr>,
             or_assign m (BIT b), w @ [Homeless_IRQ b fb])"
    by (simp add: homeless_step_def modify_parent_int_map_def b)
  ultimately show ?thesis
    by blast
qed

lemma homeless_loop_result_aux:
  "fb < length (handler (fst s)) \<Longrightarrow>
   \<exists>hs. homeless_loop fb s = Inr ((fst s)\<lparr>handler := hs\<rparr>, - 1,
           snd (snd s) @ map (\<lambda>b. Homeless_IRQ b fb) (lines_of (NOT (fst (snd s)))))
     \<and> length hs = length (handler (fst s))
     \<and> (\<forall>i<length hs. \<forall>n. bit (parent_int_map (hs ! i)) n \<longleftrightarrow>
           bit (parent_int_map (handler (fst s) ! i)) n \<or> (i = fb \<and> bit (NOT (fst (snd s))) n))"
proof (induction fb s rule: homeless_loop.induct)
  case (1 fb priv m w)
  show ?case
  proof (cases "NOT m = 0")
    case True
    have "priv\<lparr>handler := handler priv\<rparr> = priv" by simp
    moreover from True have "NOT (NOT m) = NOT 0"
      by simp
    then have "m = - 1"
      by simp
    ultimately show ?thesis
      using True by (intro exI [of _ "handler priv"]) (simp add: homeless_loop.simps)
  next
    case False
    from 1(2) have fb: "fb < length (handler priv)" by simp
    from homeless_step_result [OF False fb, of w]
    obtain b where b: "bit (NOT m) b" and low: "\<And>n. n < b \<Longrightarrow> \<not> bit (NOT m) n"
      and step: "homeless_step fb (priv, m, w) =
        Inr (priv\<lparr>handler := (handler priv)[fb := (handler priv ! fb)
                \<lparr>parent_int_map := or_assign (parent_int_map (handler priv ! fb)) (BIT b)\<rparr>]\<rparr>,
             or_assign m (BIT b), w @ [Homeless_IRQ b fb])" (is "_ = Inr ?s")
      by blast
    from b have b32: "b < 32" by (rule bit_u32_less)
    have m1: "bit (NOT (or_assign m (BIT b))) n \<longleftrightarrow> bit (NOT m) n \<and> n \<noteq> b" for n
      using b32 by (auto simp add: bit_not_iff bit_or_assign_BIT)
    have lines: "lines_of (NOT m) = b # lines_of (NOT (or_assign m (BIT b)))"
      using b low m1 by (rule lines_of_lowest)
    have fb1: "fb < length (handler (fst ?s))"
      using fb by simp
    from 1(1) [OF False step fb1]
    obtain hs where run: "homeless_loop fb ?s = Inr ((fst ?s)\<lparr>handler := hs\<rparr>, - 1,
           snd (snd ?s) @ map (\<lambda>b. Homeless_IRQ b fb) (lines_of (NOT (fst (snd ?s)))))"
      and len: "length hs = length (handler (fst ?s))"
      and hs: "\<And>i n. i < length hs \<Longrightarrow> bit (parent_int_map (hs ! i)) n \<longleftrightarrow>
           bit (parent_int_map (handler (fst ?s) ! i)) n \<or> (i = fb \<and> bit (NOT (fst (snd ?s))) n)"
      by blast
    have "homeless_loop fb (priv, m, w) = Inr (priv\<lparr>handler := hs\<rparr>, - 1,
           w @ map (\<lambda>b. Homeless_IRQ b fb) (lines_of (NOT m)))"
      using False run by (simp add: homeless_loop.simps [of fb priv m w] step lines)
    moreover have "length hs = length (handler priv)"
      using len by simp
    moreover have "bit (parent_int_map (hs ! i)) n \<longleftrightarrow>
           bit (parent_int_map (handler priv ! i)) n \<or> (i = fb \<and> bit (NOT m) n)"
      if "i < length hs" for i n
    proof (cases "i = fb")
      case True
      with hs [OF that, of n] fb b b32 m1 [of n] show ?thesis
        by (auto simp add: bit_or_assign_BIT)
    next
      case False
      with hs [OF that, of n] fb show ?thesis
        by simp
    qed
    ultimately show ?thesis
      by (intro exI [of _ hs]) simp
  qed
qed

lemma homeless_loop_result:
  assumes "fb < length (handler priv)"
  shows "\<exists>hs. homeless_loop fb (priv, m, w) = Inr (priv\<lparr>handler := hs\<rparr>, - 1,
           w @ map (\<lambda>b. Homeless_IRQ b fb) (lines_of (NOT m)))
     \<and> length hs = length (handler priv)
     \<and> (\<forall>i<length hs. \<forall>n. bit (parent_int_map (hs ! i)) n \<longleftrightarrow>
           bit (parent_int_map (handler priv ! i)) n \<or> (i = fb \<and> bit (NOT m) n))"
  using homeless_loop_result_aux [of fb "(priv, m, w)"] assms by simp

subsection \<open>The loop for lines with several parents\<close>

lemma clear_loop_result:
  assumes "k \<le> length (handler priv)"
  shows "\<exists>hs. for_loop [0..<k] (\<lambda>i. modify_parent_int_map i f) priv = Inr (priv\<lparr>handler := hs\<rparr>)
     \<and> length hs = length (handler priv)
     \<and> (\<forall>i<length hs. parent_int_map (hs ! i) =
           (if i < k then f (parent_int_map (handler priv ! i)) else parent_int_map (handler priv ! i)))"
  using assms
proof (induction k)
  case 0
  have "priv\<lparr>handler := handler priv\<rparr> = priv" by simp
  then show ?case
    by (intro exI [of _ "handler priv"]) simp
next
  case (Suc k)
  then obtain hs where run: "for_loop [0..<k] (\<lambda>i. modify_parent_int_map i f) priv = Inr (priv\<lparr>handler := hs\<rparr>)"
    and len: "length hs = length (handler priv)"
    and hs: "\<And>i. i < length hs \<Longrightarrow> parent_int_map (hs ! i) =
           (if i < k then f (parent_int_map (handler priv ! i)) else parent_int_map (handler priv ! i))"
    by auto
  from Suc.prems len have k: "k < length hs" by simp
  let ?hs = "hs[k := (hs ! k)\<lparr>parent_int_map := f (parent_int_map (hs ! k))\<rparr>]"
  have "for_loop [0..<Suc k] (\<lambda>i. modify_parent_int_map i f) priv = Inr (priv\<lparr>handler := ?hs\<rparr>)"
    using k by (simp add: for_loop_append run modify_parent_int_map_def)
  moreover have "length ?hs = length (handler priv)"
    using len by simp
  moreover have "parent_int_map (?hs ! i) =
           (if i < Suc k then f (parent_int_map (handler priv ! i)) else parent_int_map (handler priv ! i))"
    if "i < length ?hs" for i
    using that k hs [of i] hs [of k] by (auto simp add: nth_list_update less_Suc_eq)
  ultimately show ?case
    by blast
qed

lemma duplicated_step_result:
  assumes "m \<noteq> 0" "length (handler priv) = 4" "fb < 4"
  shows "\<exists>b hs. bit m b \<and> (\<forall>n<b. \<not> bit m n)
     \<and> duplicated_step fb (priv, m, w) =
        Inr (priv\<lparr>handler := hs\<rparr>, and_assign m (NOT (BIT b)), w @ [Multiple_Parents b fb])
     \<and> length hs = 4
     \<and> (\<forall>i<4. \<forall>n. bit (parent_int_map (hs ! i)) n \<longleftrightarrow>
           (bit (parent_int_map (handler priv ! i)) n \<and> n \<noteq> b) \<or> (i = fb \<and> n = b))"
proof -
  from assms(1) obtain b where b: "kernel_ffs (ucast m) = Some b"
    using ffs_u32_None [of m] by auto
  have low: "bit m b \<and> (\<forall>n<b. \<not> bit m n)"
    using b ffs_u32_Some [of m b] by blast
  then have b32: "b < 32"
    by (auto dest: bit_u32_less)
  from clear_loop_result [of 4 priv "\<lambda>m. and_assign m (NOT (BIT b))"] assms(2)
  obtain hs where run: "for_loop [0..<4] (\<lambda>i. modify_parent_int_map i (\<lambda>m. and_assign m (NOT (BIT b)))) priv
        = Inr (priv\<lparr>handler := hs\<rparr>)"
    and len: "length hs = 4"
    and hs: "\<And>i. i < 4 \<Longrightarrow> parent_int_map (hs ! i) = and_assign (parent_int_map (handler priv ! i)) (NOT (BIT b))"
    by auto
  let ?hs = "hs[fb := (hs ! fb)\<lparr>parent_int_map := or_assign (parent_int_map (hs ! fb)) (BIT b)\<rparr>]"
  have "duplicated_step fb (priv, m, w) =
        Inr (priv\<lparr>handler := ?hs\<rparr>, and_assign m (NOT (BIT b)), w @ [Multiple_Parents b fb])"
    using assms(3) len by (simp add: duplicated_step_def b run modify_parent_int_map_def)
  moreover have "length ?hs = 4"
    using len by simp
  moreover have "bit (parent_int_map (?hs ! i)) n \<longleftrightarrow>
           (bit (parent_int_map (handler priv ! i)) n \<and> n \<noteq> b) \<or> (i = fb \<and> n = b)"
    if "i < 4" for i n
  proof (cases "i = fb")
    case True
    with that len hs [of i] b32 show ?thesis
      by (auto simp add: bit_or_assign_BIT bit_and_assign_NOT_BIT)
  next
    case False
    with that len hs [of i] show ?thesis
      by (simp add: bit_and_assign_NOT_BIT)
  qed
  ultimately show ?thesis
    using low by blast
qed

lemma duplicated_loop_result_aux:
  "length (handler (fst s)) = 4 \<Longrightarrow> fb < 4 \<Longrightarrow>
   \<exists>hs. duplicated_loop fb s = Inr ((fst s)\<lparr>handler := hs\<rparr>, 0,
           snd (snd s) @ map (\<lambda>b. Multiple_Parents b fb) (lines_of (fst (snd s))))
     \<and> length hs = 4
     \<and> (\<forall>i<4. \<forall>n. bit (parent_int_map (hs ! i)) n \<longleftrightarrow>
           (bit (parent_int_map (handler (fst s) ! i)) n \<and> \<not> bit (fst (snd s)) n)
           \<or> (i = fb \<and> bit (fst (snd s)) n))"
proof (induction fb s rule: duplicated_loop.induct)
  case (1 fb priv m w)
  from 1(2) have len0: "length (handler priv) = 4" by simp
  show ?case
  proof (cases "m = 0")
    case True
    have "priv\<lparr>handler := handler priv\<rparr> = priv" by simp
    then show ?thesis
      using True len0 by (intro exI [of _ "handler priv"]) (simp add: duplicated_loop.simps)
  next
    case False
    from duplicated_step_result [OF False len0 1(3), of w]
    obtain b hs1 where b: "bit m b" and low: "\<And>n. n < b \<Longrightarrow> \<not> bit m n"
      and step: "duplicated_step fb (priv, m, w) =
        Inr (priv\<lparr>handler := hs1\<rparr>, and_assign m (NOT (BIT b)), w @ [Multiple_Parents b fb])"
        (is "_ = Inr ?s")
      and len1: "length hs1 = 4"
      and hs1: "\<And>i n. i < 4 \<Longrightarrow> bit (parent_int_map (hs1 ! i)) n \<longleftrightarrow>
           (bit (parent_int_map (handler priv ! i)) n \<and> n \<noteq> b) \<or> (i = fb \<and> n = b)"
      by blast
    have m1: "bit (and_assign m (NOT (BIT b))) n \<longleftrightarrow> bit m n \<and> n \<noteq> b" for n
      by (simp add: bit_and_assign_NOT_BIT)
    have lines: "lines_of m = b # lines_of (and_assign m (NOT (BIT b)))"
      using b low m1 by (rule lines_of_lowest)
    have len1': "length (handler (fst ?s)) = 4"
      using len1 by simp
    from 1(1) [OF False step len1' 1(3)]
    obtain hs where run: "duplicated_loop fb ?s = Inr ((fst ?s)\<lparr>handler := hs\<rparr>, 0,
           snd (snd ?s) @ map (\<lambda>b. Multiple_Parents b fb) (lines_of (fst (snd ?s))))"
      and len: "length hs = 4"
      and hs: "\<And>i n. i < 4 \<Longrightarrow> bit (parent_int_map (hs ! i)) n \<longleftrightarrow>
           (bit (parent_int_map (handler (fst ?s) ! i)) n \<and> \<not> bit (fst (snd ?s)) n)
           \<or> (i = fb \<and> bit (fst (snd ?s)) n)"
      by blast
    have "duplicated_loop fb (priv, m, w) = Inr (priv\<lparr>handler := hs\<rparr>, 0,
           w @ map (\<lambda>b. Multiple_Parents b fb) (lines_of m))"
      using False run by (simp add: duplicated_loop.simps [of fb priv m w] step lines)
    moreover have "bit (parent_int_map (hs ! i)) n \<longleftrightarrow>
           (bit (parent_int_map (handler priv ! i)) n \<and> \<not> bit m n) \<or> (i = fb \<and> bit m n)"
      if "i < 4" for i n
      using hs [OF that, of n] hs1 [OF that, of n] m1 [of n] b
      by (cases "n = b") auto
    ultimately show ?thesis
      using len by (intro exI [of _ hs]) simp
  qed
qed

lemma duplicated_loop_result:
  assumes "length (handler priv) = 4" "fb < 4"
  shows "\<exists>hs. duplicated_loop fb (priv, m, w) = Inr (priv\<lparr>handler := hs\<rparr>, 0,
           w @ map (\<lambda>b. Multiple_Parents b fb) (lines_of m))
     \<and> length hs = 4
     \<and> (\<forall>i<4. \<forall>n. bit (parent_int_map (hs ! i)) n \<longleftrightarrow>
           (bit (parent_int_map (handler priv ! i)) n \<and> \<not> bit m n) \<or> (i = fb \<and> bit m n))"
  using duplicated_loop_result_aux [of "(priv, m, w)" fb] assms by simp

subsection \<open>The map cache\<close>

lemma map_cache_step_result:
  assumes "m \<noteq> 0" "length (map_cache priv) = 32"
  shows "\<exists>b. bit m b \<and> (\<forall>n<b. \<not> bit m n)
     \<and> map_cache_step i (priv, m) =
        Inr (priv\<lparr>map_cache := (map_cache priv)[b := ucast (push_bit IOINTC_SHIFT_INTx (BIT i))]\<rparr>,
             and_assign m (NOT (BIT b)))"
proof -
  from assms(1) obtain b where b: "kernel_ffs (ucast m) = Some b"
    using ffs_u32_None [of m] by auto
  have low: "bit m b \<and> (\<forall>n<b. \<not> bit m n)"
    using b ffs_u32_Some [of m b] by blast
  then have "b < 32"
    by (auto dest: bit_u32_less)
  then have "map_cache_step i (priv, m) =
        Inr (priv\<lparr>map_cache := (map_cache priv)[b := ucast (push_bit IOINTC_SHIFT_INTx (BIT i))]\<rparr>,
             and_assign m (NOT (BIT b)))"
    using assms(2) by (simp add: map_cache_step_def b)
  with low show ?thesis
    by blast
qed

lemma map_cache_loop_result_aux:
  "length (map_cache (fst s)) = 32 \<Longrightarrow>
   \<exists>mc. map_cache_loop i s = Inr ((fst s)\<lparr>map_cache := mc\<rparr>, 0)
     \<and> length mc = 32
     \<and> (\<forall>l<32. mc ! l = (if bit (snd s) l then ucast (push_bit IOINTC_SHIFT_INTx (BIT i))
                          else map_cache (fst s) ! l))"
proof (induction i s rule: map_cache_loop.induct)
  case (1 i priv m)
  from 1(2) have len0: "length (map_cache priv) = 32" by simp
  show ?case
  proof (cases "m = 0")
    case True
    have "priv\<lparr>map_cache := map_cache priv\<rparr> = priv" by simp
    then show ?thesis
      using True len0 by (intro exI [of _ "map_cache priv"]) (simp add: map_cache_loop.simps)
  next
    case False
    from map_cache_step_result [OF False len0, of i]
    obtain b where b: "bit m b"
      and step: "map_cache_step i (priv, m) =
        Inr (priv\<lparr>map_cache := (map_cache priv)[b := ucast (push_bit IOINTC_SHIFT_INTx (BIT i))]\<rparr>,
             and_assign m (NOT (BIT b)))" (is "_ = Inr ?s")
      by blast
    from b have b32: "b < 32" by (rule bit_u32_less)
    have len1: "length (map_cache (fst ?s)) = 32"
      using len0 by simp
    from 1(1) [OF False step len1]
    obtain mc where run: "map_cache_loop i ?s = Inr ((fst ?s)\<lparr>map_cache := mc\<rparr>, 0)"
      and len: "length mc = 32"
      and mc: "\<And>l. l < 32 \<Longrightarrow> mc ! l =
          (if bit (snd ?s) l then ucast (push_bit IOINTC_SHIFT_INTx (BIT i))
           else map_cache (fst ?s) ! l)"
      by blast
    have "map_cache_loop i (priv, m) = Inr (priv\<lparr>map_cache := mc\<rparr>, 0)"
      using False run by (simp add: map_cache_loop.simps [of i priv m] step)
    moreover have "mc ! l = (if bit m l then ucast (push_bit IOINTC_SHIFT_INTx (BIT i))
                          else map_cache priv ! l)"
      if "l < 32" for l
      using mc [OF that] that b b32 len0
      by (cases "l = b") (simp_all add: bit_and_assign_NOT_BIT)
    ultimately show ?thesis
      using len by (intro exI [of _ mc]) simp
  qed
qed

lemma generate_map_cache_result:
  assumes "i < length (handler priv)" "length (map_cache priv) = 32"
  shows "\<exists>mc. generate_map_cache i priv = Inr (priv\<lparr>map_cache := mc\<rparr>)
     \<and> length mc = 32
     \<and> (\<forall>l<32. mc ! l = (if bit (parent_int_map (handler priv ! i)) l
                          then ucast (push_bit IOINTC_SHIFT_INTx (BIT i))
                          else map_cache priv ! l))"
  using map_cache_loop_result_aux [of "(priv, parent_int_map (handler priv ! i))" i] assms
  by (auto simp add: generate_map_cache_def)

lemma generate_loop_result:
  assumes "k \<le> length (handler priv)" "length (map_cache priv) = 32"
  shows "\<exists>mc. for_loop [0..<k] generate_map_cache priv = Inr (priv\<lparr>map_cache := mc\<rparr>)
     \<and> length mc = 32
     \<and> (\<forall>l<32. (\<forall>i<k. \<not> bit (parent_int_map (handler priv ! i)) l) \<longrightarrow> mc ! l = map_cache priv ! l)
     \<and> (\<forall>l<32. \<forall>i<k. bit (parent_int_map (handler priv ! i)) l
            \<and> (\<forall>j<k. i < j \<longrightarrow> \<not> bit (parent_int_map (handler priv ! j)) l)
          \<longrightarrow> mc ! l = ucast (push_bit IOINTC_SHIFT_INTx (BIT i)))"
  using assms(1)
proof (induction k)
  case 0
  have "priv\<lparr>map_cache := map_cache priv\<rparr> = priv" by simp
  then show ?case
    using assms(2) by (intro exI [of _ "map_cache priv"]) simp
next
  case (Suc k)
  then obtain mc0 where run: "for_loop [0..<k] generate_map_cache priv = Inr (priv\<lparr>map_cache := mc0\<rparr>)"
    and len0: "length mc0 = 32"
    and none: "\<And>l. l < 32 \<Longrightarrow> (\<forall>i<k. \<not> bit (parent_int_map (handler priv ! i)) l) \<Longrightarrow> mc0 ! l = map_cache priv ! l"
    and last: "\<And>l i. l < 32 \<Longrightarrow> i < k \<Longrightarrow> bit (parent_int_map (handler priv ! i)) l
            \<Longrightarrow> (\<forall>j<k. i < j \<longrightarrow> \<not> bit (parent_int_map (handler priv ! j)) l)
            \<Longrightarrow> mc0 ! l = ucast (push_bit IOINTC_SHIFT_INTx (BIT i))"
    by auto
  from Suc.prems have k: "k < length (handler (priv\<lparr>map_cache := mc0\<rparr>))" by simp
  from generate_map_cache_result [OF k] len0
  obtain mc where step: "generate_map_cache k (priv\<lparr>map_cache := mc0\<rparr>) = Inr (priv\<lparr>map_cache := mc\<rparr>)"
    and len: "length mc = 32"
    and mc: "\<And>l. l < 32 \<Longrightarrow> mc ! l = (if bit (parent_int_map (handler priv ! k)) l
                          then ucast (push_bit IOINTC_SHIFT_INTx (BIT k))
                          else mc0 ! l)"
    by auto
  have "for_loop [0..<Suc k] generate_map_cache priv = Inr (priv\<lparr>map_cache := mc\<rparr>)"
    by (simp add: for_loop_append run step)
  moreover have "mc ! l = map_cache priv ! l"
    if "l < 32" "\<forall>i<Suc k. \<not> bit (parent_int_map (handler priv ! i)) l" for l
    using that mc [of l] none [of l] by simp
  moreover have "mc ! l = ucast (push_bit IOINTC_SHIFT_INTx (BIT i))"
    if "l < 32" "i < Suc k" "bit (parent_int_map (handler priv ! i)) l"
      "\<forall>j<Suc k. i < j \<longrightarrow> \<not> bit (parent_int_map (handler priv ! j)) l" for l i
  proof (cases "i = k")
    case True
    with that mc [of l] show ?thesis by simp
  next
    case False
    with that have "i < k" "\<not> bit (parent_int_map (handler priv ! k)) l"
      by auto
    with that mc [of l] last [of l i] show ?thesis by simp
  qed
  ultimately show ?case
    using len by blast
qed

subsection \<open>The whole of \<^verbatim>\<open>validate_parent_mask\<close>\<close>

lemma validate_parent_mask_run:
  assumes len_h: "length (handler priv) = 4" and len_mc: "length (map_cache priv) = 32"
    and len_hints: "length hints = 4"
    and fb: "fb < 4" "bit (possible_parent_mask priv) fb"
      "\<And>c. c < fb \<Longrightarrow> \<not> bit (possible_parent_mask priv) c"
    and zero: "\<And>i. i < 4 \<Longrightarrow> \<not> bit (possible_parent_mask priv) i \<Longrightarrow> parent_int_map (handler priv ! i) = 0"
  obtains hs mc p d where
    "validate_parent_mask priv hints =
        Inr (priv\<lparr>handler := hs, map_cache := mc\<rparr>,
             map (\<lambda>b. Homeless_IRQ b fb) (lines_of (NOT p)) @ map (\<lambda>b. Multiple_Parents b fb) (lines_of d))"
    "length hs = 4" "length mc = 32"
    "\<forall>n. bit p n \<longleftrightarrow> (\<exists>i<4. claims priv hints i n)"
    "\<forall>n. bit d n \<longleftrightarrow> (\<exists>i<4. \<exists>j<i. claims priv hints i n \<and> claims priv hints j n)"
    "\<forall>i<4. \<forall>n. bit (parent_int_map (hs ! i)) n \<longleftrightarrow>
           ((claims priv hints i n \<or> (i = fb \<and> bit (NOT p) n)) \<and> \<not> bit d n) \<or> (i = fb \<and> bit d n)"
    "\<forall>l<32. \<forall>i<4. bit (parent_int_map (hs ! i)) l
            \<and> (\<forall>j<4. i < j \<longrightarrow> \<not> bit (parent_int_map (hs ! j)) l)
          \<longrightarrow> mc ! l = ucast (push_bit IOINTC_SHIFT_INTx (BIT i))"
proof -
  have ffs: "kernel_ffs (ucast (possible_parent_mask priv)) = Some fb"
    using fb by (simp add: ffs_u8_Some)
  from collect_loop_result [OF len_h len_hints, of 4]
  obtain hs1 p d where run1: "for_loop [0..<4] (collect_parent hints) (priv, 0, 0) = Inr (priv\<lparr>handler := hs1\<rparr>, p, d)"
    and len1: "length hs1 = 4"
    and hs1: "\<And>i. i < 4 \<Longrightarrow> parent_int_map (hs1 ! i) =
          (if bit (possible_parent_mask priv) i then hints ! i else parent_int_map (handler priv ! i))"
    and p: "\<And>n. bit p n \<longleftrightarrow> (\<exists>i<4. bit (possible_parent_mask priv) i \<and> bit (hints ! i) n)"
    and d: "\<And>n. bit d n \<longleftrightarrow> (\<exists>i<4. \<exists>j<i. bit (possible_parent_mask priv) i
            \<and> bit (possible_parent_mask priv) j \<and> bit (hints ! i) n \<and> bit (hints ! j) n)"
    by auto
  have bits1: "bit (parent_int_map (hs1 ! i)) n \<longleftrightarrow> claims priv hints i n" if "i < 4" for i n
    using that hs1 [OF that] zero [OF that] by (simp add: claims_def)
  from homeless_loop_result [of fb "priv\<lparr>handler := hs1\<rparr>" p "[]"] fb(1) len1
  obtain hs2 where run2: "homeless_loop fb (priv\<lparr>handler := hs1\<rparr>, p, []) =
        Inr (priv\<lparr>handler := hs2\<rparr>, - 1, map (\<lambda>b. Homeless_IRQ b fb) (lines_of (NOT p)))"
    and len2: "length hs2 = 4"
    and hs2: "\<And>i n. i < 4 \<Longrightarrow> bit (parent_int_map (hs2 ! i)) n \<longleftrightarrow>
           bit (parent_int_map (hs1 ! i)) n \<or> (i = fb \<and> bit (NOT p) n)"
    by auto
  from duplicated_loop_result [of "priv\<lparr>handler := hs2\<rparr>" fb d "map (\<lambda>b. Homeless_IRQ b fb) (lines_of (NOT p))"]
    fb(1) len2
  obtain hs3 where run3: "duplicated_loop fb (priv\<lparr>handler := hs2\<rparr>, d, map (\<lambda>b. Homeless_IRQ b fb) (lines_of (NOT p))) =
        Inr (priv\<lparr>handler := hs3\<rparr>, 0,
          map (\<lambda>b. Homeless_IRQ b fb) (lines_of (NOT p)) @ map (\<lambda>b. Multiple_Parents b fb) (lines_of d))"
    and len3: "length hs3 = 4"
    and hs3: "\<And>i n. i < 4 \<Longrightarrow> bit (parent_int_map (hs3 ! i)) n \<longleftrightarrow>
           (bit (parent_int_map (hs2 ! i)) n \<and> \<not> bit d n) \<or> (i = fb \<and> bit d n)"
    by auto
  from generate_loop_result [of 4 "priv\<lparr>handler := hs3\<rparr>"] len3 len_mc
  obtain mc where run4: "for_loop [0..<4] generate_map_cache (priv\<lparr>handler := hs3\<rparr>) =
        Inr (priv\<lparr>handler := hs3, map_cache := mc\<rparr>)"
    and len4: "length mc = 32"
    and mc: "\<And>l i. l < 32 \<Longrightarrow> i < 4 \<Longrightarrow> bit (parent_int_map (hs3 ! i)) l
            \<Longrightarrow> (\<forall>j<4. i < j \<longrightarrow> \<not> bit (parent_int_map (hs3 ! j)) l)
            \<Longrightarrow> mc ! l = ucast (push_bit IOINTC_SHIFT_INTx (BIT i))"
    by auto
  have r1: "validate_parent_mask priv hints =
        Inr (priv\<lparr>handler := hs3, map_cache := mc\<rparr>,
             map (\<lambda>b. Homeless_IRQ b fb) (lines_of (NOT p)) @ map (\<lambda>b. Multiple_Parents b fb) (lines_of d))"
    by (simp add: validate_parent_mask_def ffs run1 run2 run3 run4)
  have r2: "\<forall>n. bit p n \<longleftrightarrow> (\<exists>i<4. claims priv hints i n)"
    using p by (simp add: claims_def)
  have r3: "\<forall>n. bit d n \<longleftrightarrow> (\<exists>i<4. \<exists>j<i. claims priv hints i n \<and> claims priv hints j n)"
    using d by (auto simp add: claims_def)
  have r4: "\<forall>i<4. \<forall>n. bit (parent_int_map (hs3 ! i)) n \<longleftrightarrow>
           ((claims priv hints i n \<or> (i = fb \<and> bit (NOT p) n)) \<and> \<not> bit d n) \<or> (i = fb \<and> bit d n)"
    using hs3 hs2 bits1 by simp
  have r5: "\<forall>l<32. \<forall>i<4. bit (parent_int_map (hs3 ! i)) l
            \<and> (\<forall>j<4. i < j \<longrightarrow> \<not> bit (parent_int_map (hs3 ! j)) l)
          \<longrightarrow> mc ! l = ucast (push_bit IOINTC_SHIFT_INTx (BIT i))"
    using mc by blast
  show ?thesis
    using r1 len3 len4 r2 r3 r4 r5 by (rule that)
qed

lemma lines_of_cong:
  assumes "\<And>n. n < 32 \<Longrightarrow> bit m n \<longleftrightarrow> P n"
  shows "lines_of m = filter P [0..<32]"
  unfolding lines_of_def using assms by (intro filter_cong) simp_all

lemma validate_parent_mask_lines:
  assumes len_h: "length (handler priv) = 4" and len_mc: "length (map_cache priv) = 32"
    and len_hints: "length hints = 4"
    and fb: "fb < 4" "bit (possible_parent_mask priv) fb"
      "\<And>c. c < fb \<Longrightarrow> \<not> bit (possible_parent_mask priv) c"
    and zero: "\<And>i. i < 4 \<Longrightarrow> \<not> bit (possible_parent_mask priv) i \<Longrightarrow> parent_int_map (handler priv ! i) = 0"
  obtains hs mc where
    "validate_parent_mask priv hints =
        Inr (priv\<lparr>handler := hs, map_cache := mc\<rparr>,
             map (\<lambda>l. Homeless_IRQ l fb) (filter (\<lambda>l. \<forall>c<4. \<not> claims priv hints c l) [0..<32])
             @ map (\<lambda>l. Multiple_Parents l fb)
                 (filter (\<lambda>l. \<exists>i<4. \<exists>j<i. claims priv hints i l \<and> claims priv hints j l) [0..<32]))"
    "length hs = 4" "length mc = 32"
    "\<forall>l<32. \<forall>c<4.
           (claims priv hints c l \<and> (\<forall>c'<4. c' \<noteq> c \<longrightarrow> \<not> claims priv hints c' l))
           \<or> (c = fb \<and> ((\<forall>c'<4. \<not> claims priv hints c' l)
                 \<or> (\<exists>i<4. \<exists>j<i. claims priv hints i l \<and> claims priv hints j l)))
         \<longrightarrow> mc ! l = ucast (push_bit IOINTC_SHIFT_INTx (BIT c))
             \<and> (\<forall>i<4. bit (parent_int_map (hs ! i)) l \<longleftrightarrow> i = c)"
proof -
  obtain hs mc p d where run: "validate_parent_mask priv hints =
        Inr (priv\<lparr>handler := hs, map_cache := mc\<rparr>,
             map (\<lambda>b. Homeless_IRQ b fb) (lines_of (NOT p)) @ map (\<lambda>b. Multiple_Parents b fb) (lines_of d))"
    and len: "length hs = 4" "length mc = 32"
    and p': "\<forall>n. bit p n \<longleftrightarrow> (\<exists>i<4. claims priv hints i n)"
    and d': "\<forall>n. bit d n \<longleftrightarrow> (\<exists>i<4. \<exists>j<i. claims priv hints i n \<and> claims priv hints j n)"
    and hs': "\<forall>i<4. \<forall>n. bit (parent_int_map (hs ! i)) n \<longleftrightarrow>
           ((claims priv hints i n \<or> (i = fb \<and> bit (NOT p) n)) \<and> \<not> bit d n) \<or> (i = fb \<and> bit d n)"
    and mc': "\<forall>l<32. \<forall>i<4. bit (parent_int_map (hs ! i)) l
            \<and> (\<forall>j<4. i < j \<longrightarrow> \<not> bit (parent_int_map (hs ! j)) l)
          \<longrightarrow> mc ! l = ucast (push_bit IOINTC_SHIFT_INTx (BIT i))"
    by (rule validate_parent_mask_run [OF assms])
  have p: "bit p n \<longleftrightarrow> (\<exists>i<4. claims priv hints i n)" for n
    using p' by (rule spec)
  have d: "bit d n \<longleftrightarrow> (\<exists>i<4. \<exists>j<i. claims priv hints i n \<and> claims priv hints j n)" for n
    using d' by (rule spec)
  have hs: "bit (parent_int_map (hs ! i)) n \<longleftrightarrow>
           ((claims priv hints i n \<or> (i = fb \<and> bit (NOT p) n)) \<and> \<not> bit d n) \<or> (i = fb \<and> bit d n)"
    if "i < 4" for i n
    using hs' that by simp
  have mc: "mc ! l = ucast (push_bit IOINTC_SHIFT_INTx (BIT i))"
    if "l < 32" "i < 4" "bit (parent_int_map (hs ! i)) l"
      "\<forall>j<4. i < j \<longrightarrow> \<not> bit (parent_int_map (hs ! j)) l" for l i
    using mc' that by simp
  have "lines_of (NOT p) = filter (\<lambda>l. \<forall>c<4. \<not> claims priv hints c l) [0..<32]"
    by (rule lines_of_cong) (auto simp add: bit_not_iff p)
  moreover have "lines_of d = filter (\<lambda>l. \<exists>i<4. \<exists>j<i. claims priv hints i l \<and> claims priv hints j l) [0..<32]"
    by (rule lines_of_cong) (rule d)
  ultimately have run': "validate_parent_mask priv hints =
        Inr (priv\<lparr>handler := hs, map_cache := mc\<rparr>,
             map (\<lambda>l. Homeless_IRQ l fb) (filter (\<lambda>l. \<forall>c<4. \<not> claims priv hints c l) [0..<32])
             @ map (\<lambda>l. Multiple_Parents l fb)
                 (filter (\<lambda>l. \<exists>i<4. \<exists>j<i. claims priv hints i l \<and> claims priv hints j l) [0..<32]))"
    using run by simp
  have one: "\<forall>i<4. bit (parent_int_map (hs ! i)) l \<longleftrightarrow> i = c"
    if l: "l < 32" and c: "c < 4"
      and r: "(claims priv hints c l \<and> (\<forall>c'<4. c' \<noteq> c \<longrightarrow> \<not> claims priv hints c' l))
           \<or> (c = fb \<and> ((\<forall>c'<4. \<not> claims priv hints c' l)
                 \<or> (\<exists>i<4. \<exists>j<i. claims priv hints i l \<and> claims priv hints j l)))" for l c
  proof -
    have np: "bit (NOT p) l \<longleftrightarrow> \<not> bit p l"
      using l by (simp add: bit_not_iff)
    from r consider
      (single) "claims priv hints c l" "\<forall>c'<4. c' \<noteq> c \<longrightarrow> \<not> claims priv hints c' l"
      | (none) "c = fb" "\<forall>c'<4. \<not> claims priv hints c' l"
      | (several) "c = fb" "\<exists>i<4. \<exists>j<i. claims priv hints i l \<and> claims priv hints j l"
      by blast
    then show ?thesis
    proof cases
      case single
      have "bit p l"
        using single(1) c p [of l] by blast
      moreover have "\<not> bit d l"
      proof
        assume "bit d l"
        then obtain i j where "i < 4" "j < i" "claims priv hints i l" "claims priv hints j l"
          using d [of l] by blast
        moreover from this have "j < 4" "i \<noteq> c \<or> j \<noteq> c" by simp_all
        ultimately show False
          using single(2) by blast
      qed
      ultimately show ?thesis
        using hs [of _ l] np single by blast
    next
      case none
      then have "\<not> bit p l" "\<not> bit d l"
        using p [of l] d [of l] by auto
      then show ?thesis
        using hs [of _ l] np none by blast
    next
      case several
      then have "bit d l"
        using d [of l] by blast
      then show ?thesis
        using hs [of _ l] several(1) by blast
    qed
  qed
  have two: "mc ! l = ucast (push_bit IOINTC_SHIFT_INTx (BIT c))"
    if "l < 32" "c < 4" "\<forall>i<4. bit (parent_int_map (hs ! i)) l \<longleftrightarrow> i = c" for l c
    using that mc [of l c] by auto
  have three: "\<forall>l<32. \<forall>c<4.
           (claims priv hints c l \<and> (\<forall>c'<4. c' \<noteq> c \<longrightarrow> \<not> claims priv hints c' l))
           \<or> (c = fb \<and> ((\<forall>c'<4. \<not> claims priv hints c' l)
                 \<or> (\<exists>i<4. \<exists>j<i. claims priv hints i l \<and> claims priv hints j l)))
         \<longrightarrow> mc ! l = ucast (push_bit IOINTC_SHIFT_INTx (BIT c))
             \<and> (\<forall>i<4. bit (parent_int_map (hs ! i)) l \<longleftrightarrow> i = c)"
  proof (intro allI impI)
    fix l c :: nat
    assume l: "l < 32" and c: "c < 4"
      and r: "(claims priv hints c l \<and> (\<forall>c'<4. c' \<noteq> c \<longrightarrow> \<not> claims priv hints c' l))
           \<or> (c = fb \<and> ((\<forall>c'<4. \<not> claims priv hints c' l)
                 \<or> (\<exists>i<4. \<exists>j<i. claims priv hints i l \<and> claims priv hints j l)))"
    note o = one [OF l c r]
    from two [OF l c o] o
    show "mc ! l = ucast (push_bit IOINTC_SHIFT_INTx (BIT c))
             \<and> (\<forall>i<4. bit (parent_int_map (hs ! i)) l \<longleftrightarrow> i = c)"
      by (rule conjI)
  qed
  from run' len(1) len(2) three show ?thesis
    by (rule that)
qed

subsection \<open>From the zeroed \<open>priv\<close> and the parent names\<close>

lemma probe_loop_result:
  assumes "k \<le> 8"
  shows "\<exists>m. fold (probe_parent parent_irq) [0..<k] priv = priv\<lparr>possible_parent_mask := m\<rparr>
     \<and> (\<forall>i. bit m i \<longleftrightarrow> bit (possible_parent_mask priv) i \<or> (i < k \<and> 0 \<le> parent_irq i))"
  using assms
proof (induction k)
  case 0
  have "priv\<lparr>possible_parent_mask := possible_parent_mask priv\<rparr> = priv" by simp
  then show ?case
    by (intro exI [of _ "possible_parent_mask priv"]) simp
next
  case (Suc k)
  then obtain m where run: "fold (probe_parent parent_irq) [0..<k] priv = priv\<lparr>possible_parent_mask := m\<rparr>"
    and m: "\<And>i. bit m i \<longleftrightarrow> bit (possible_parent_mask priv) i \<or> (i < k \<and> 0 \<le> parent_irq i)"
    by auto
  from Suc.prems have k: "k < 8" by simp
  show ?case
  proof (cases "0 \<le> parent_irq k")
    case True
    then have "fold (probe_parent parent_irq) [0..<Suc k] priv
        = priv\<lparr>possible_parent_mask := or_assign m (BIT k)\<rparr>"
      by (simp add: run probe_parent_def)
    moreover have "\<forall>i. bit (or_assign m (BIT k)) i \<longleftrightarrow>
        bit (possible_parent_mask priv) i \<or> (i < Suc k \<and> 0 \<le> parent_irq i)"
      using True k m by (auto simp add: bit_or_assign_BIT_u8 less_Suc_eq)
    ultimately show ?thesis
      by blast
  next
    case False
    then have "fold (probe_parent parent_irq) [0..<Suc k] priv = priv\<lparr>possible_parent_mask := m\<rparr>"
      by (simp add: run probe_parent_def)
    moreover have "\<forall>i. bit m i \<longleftrightarrow>
        bit (possible_parent_mask priv) i \<or> (i < Suc k \<and> 0 \<le> parent_irq i)"
      using False m by (auto simp add: less_Suc_eq)
    ultimately show ?thesis
      by blast
  qed
qed

lemma probed_priv:
  obtains m where
    "fold (probe_parent parent_irq) [0..<4] kzalloc_priv = kzalloc_priv\<lparr>possible_parent_mask := m\<rparr>"
    "\<forall>i. bit m i \<longleftrightarrow> i < 4 \<and> 0 \<le> parent_irq i"
proof -
  from probe_loop_result [of 4 parent_irq kzalloc_priv]
  obtain m where "fold (probe_parent parent_irq) [0..<4] kzalloc_priv = kzalloc_priv\<lparr>possible_parent_mask := m\<rparr>"
    and "\<forall>i. bit m i \<longleftrightarrow> bit (possible_parent_mask kzalloc_priv) i \<or> (i < 4 \<and> 0 \<le> parent_irq i)"
    by auto
  then show ?thesis
    by (intro that [of m]) (simp_all add: kzalloc_priv_def)
qed

lemma probe_and_validate_no_parent:
  assumes "\<And>c. c < 4 \<Longrightarrow> parent_irq c < 0"
  shows "probe_and_validate parent_irq hints = Inl (Errno (- ENOMEM))"
proof -
  obtain m where run: "fold (probe_parent parent_irq) [0..<4] kzalloc_priv = kzalloc_priv\<lparr>possible_parent_mask := m\<rparr>"
    and m: "\<forall>i. bit m i \<longleftrightarrow> i < 4 \<and> 0 \<le> parent_irq i"
    by (rule probed_priv)
  have "m = 0"
  proof (rule bit_eqI)
    fix n
    from m have "bit m n \<longleftrightarrow> n < 4 \<and> 0 \<le> parent_irq n"
      by (rule spec)
    with assms [of n] show "bit m n \<longleftrightarrow> bit (0 :: u8) n"
      by (cases "n < 4") simp_all
  qed
  then show ?thesis
    by (simp add: probe_and_validate_def run)
qed

lemma probe_and_validate_result:
  assumes len: "length hints = 4"
    and fb: "fb < 4" "0 \<le> parent_irq fb" "\<forall>c<fb. parent_irq c < 0"
  obtains priv' where
    "probe_and_validate parent_irq hints =
        Inr (priv',
             map (\<lambda>l. Homeless_IRQ l fb) (filter (\<lambda>l. \<forall>c<4. \<not> wants parent_irq hints c l) [0..<32])
             @ map (\<lambda>l. Multiple_Parents l fb)
                 (filter (\<lambda>l. \<exists>i<4. \<exists>j<i. wants parent_irq hints i l \<and> wants parent_irq hints j l) [0..<32]))"
    "length (handler priv') = 4" "length (map_cache priv') = 32"
    "\<forall>i. bit (possible_parent_mask priv') i \<longleftrightarrow> i < 4 \<and> 0 \<le> parent_irq i"
    "\<forall>l<32. \<forall>c<4.
           (wants parent_irq hints c l \<and> (\<forall>c'<4. c' \<noteq> c \<longrightarrow> \<not> wants parent_irq hints c' l))
           \<or> (c = fb \<and> ((\<forall>c'<4. \<not> wants parent_irq hints c' l)
                 \<or> (\<exists>i<4. \<exists>j<i. wants parent_irq hints i l \<and> wants parent_irq hints j l)))
         \<longrightarrow> map_cache priv' ! l = ucast (push_bit IOINTC_SHIFT_INTx (BIT c))
             \<and> (\<forall>i<4. bit (parent_int_map (handler priv' ! i)) l \<longleftrightarrow> i = c)"
proof -
  obtain m where run: "fold (probe_parent parent_irq) [0..<4] kzalloc_priv = kzalloc_priv\<lparr>possible_parent_mask := m\<rparr>"
    and m: "\<forall>i. bit m i \<longleftrightarrow> i < 4 \<and> 0 \<le> parent_irq i"
    by (rule probed_priv)
  let ?priv = "kzalloc_priv\<lparr>possible_parent_mask := m\<rparr>"
  have mask: "possible_parent_mask ?priv = m" by simp
  have c: "claims ?priv hints c l \<longleftrightarrow> wants parent_irq hints c l" if "c < 4" for c l
    using that m by (simp add: claims_def wants_def)
  have c2: "(\<exists>i<4. \<exists>j<i. claims ?priv hints i l \<and> claims ?priv hints j l)
      \<longleftrightarrow> (\<exists>i<4. \<exists>j<i. wants parent_irq hints i l \<and> wants parent_irq hints j l)" for l
  proof
    assume "\<exists>i<4. \<exists>j<i. claims ?priv hints i l \<and> claims ?priv hints j l"
    then obtain i j where ij: "i < 4" "j < i" "claims ?priv hints i l" "claims ?priv hints j l"
      by blast
    then have "j < 4" by simp
    with ij c [of i l] c [of j l] have "wants parent_irq hints i l" "wants parent_irq hints j l"
      by simp_all
    with ij(1,2) show "\<exists>i<4. \<exists>j<i. wants parent_irq hints i l \<and> wants parent_irq hints j l"
      by blast
  next
    assume "\<exists>i<4. \<exists>j<i. wants parent_irq hints i l \<and> wants parent_irq hints j l"
    then obtain i j where ij: "i < 4" "j < i" "wants parent_irq hints i l" "wants parent_irq hints j l"
      by blast
    then have "j < 4" by simp
    with ij c [of i l] c [of j l] have "claims ?priv hints i l" "claims ?priv hints j l"
      by simp_all
    with ij(1,2) show "\<exists>i<4. \<exists>j<i. claims ?priv hints i l \<and> claims ?priv hints j l"
      by blast
  qed
  have c1: "(\<forall>c<4. \<not> claims ?priv hints c l) \<longleftrightarrow> (\<forall>c<4. \<not> wants parent_irq hints c l)" for l
    using c by simp
  have c3: "(\<forall>c'<4. c' \<noteq> k \<longrightarrow> \<not> claims ?priv hints c' l)
      \<longleftrightarrow> (\<forall>c'<4. c' \<noteq> k \<longrightarrow> \<not> wants parent_irq hints c' l)" for l k
    using c by simp
  from m fb(1,2) have "bit m fb"
    by simp
  then have "m \<noteq> 0"
    by auto
  have p1: "bit (possible_parent_mask ?priv) fb"
    using m fb(1,2) by simp
  have p2: "\<not> bit (possible_parent_mask ?priv) c" if "c < fb" for c
  proof -
    from fb(3) that have "parent_irq c < 0"
      by simp
    with m show ?thesis
      by simp
  qed
  have p3: "parent_int_map (handler ?priv ! i) = 0" if "i < 4" for i
    using that by (simp add: kzalloc_priv_def)
  have p4: "length (handler ?priv) = 4" and p5: "length (map_cache ?priv) = 32"
    by (simp_all add: kzalloc_priv_def)
  obtain hs mc where v: "validate_parent_mask ?priv hints =
        Inr (?priv\<lparr>handler := hs, map_cache := mc\<rparr>,
             map (\<lambda>l. Homeless_IRQ l fb) (filter (\<lambda>l. \<forall>c<4. \<not> claims ?priv hints c l) [0..<32])
             @ map (\<lambda>l. Multiple_Parents l fb)
                 (filter (\<lambda>l. \<exists>i<4. \<exists>j<i. claims ?priv hints i l \<and> claims ?priv hints j l) [0..<32]))"
     and lens: "length hs = 4" "length mc = 32"
     and res: "\<forall>l<32. \<forall>c<4.
           (claims ?priv hints c l \<and> (\<forall>c'<4. c' \<noteq> c \<longrightarrow> \<not> claims ?priv hints c' l))
           \<or> (c = fb \<and> ((\<forall>c'<4. \<not> claims ?priv hints c' l)
                 \<or> (\<exists>i<4. \<exists>j<i. claims ?priv hints i l \<and> claims ?priv hints j l)))
         \<longrightarrow> mc ! l = ucast (push_bit IOINTC_SHIFT_INTx (BIT c))
             \<and> (\<forall>i<4. bit (parent_int_map (hs ! i)) l \<longleftrightarrow> i = c)"
    by (rule validate_parent_mask_lines [OF p4 p5 len fb(1) p1 p2 p3])
  let ?priv' = "?priv\<lparr>handler := hs, map_cache := mc\<rparr>"
  have "probe_and_validate parent_irq hints =
        Inr (?priv',
             map (\<lambda>l. Homeless_IRQ l fb) (filter (\<lambda>l. \<forall>c<4. \<not> wants parent_irq hints c l) [0..<32])
             @ map (\<lambda>l. Multiple_Parents l fb)
                 (filter (\<lambda>l. \<exists>i<4. \<exists>j<i. wants parent_irq hints i l \<and> wants parent_irq hints j l) [0..<32]))"
    using \<open>m \<noteq> 0\<close> by (simp add: probe_and_validate_def run v c1 c2)
  moreover have "length (handler ?priv') = 4" "length (map_cache ?priv') = 32"
    using lens by simp_all
  moreover have "\<forall>i. bit (possible_parent_mask ?priv') i \<longleftrightarrow> i < 4 \<and> 0 \<le> parent_irq i"
    using m by simp
  moreover have "\<forall>l<32. \<forall>c<4.
           (wants parent_irq hints c l \<and> (\<forall>c'<4. c' \<noteq> c \<longrightarrow> \<not> wants parent_irq hints c' l))
           \<or> (c = fb \<and> ((\<forall>c'<4. \<not> wants parent_irq hints c' l)
                 \<or> (\<exists>i<4. \<exists>j<i. wants parent_irq hints i l \<and> wants parent_irq hints j l)))
         \<longrightarrow> map_cache ?priv' ! l = ucast (push_bit IOINTC_SHIFT_INTx (BIT c))
             \<and> (\<forall>i<4. bit (parent_int_map (handler ?priv' ! i)) l \<longleftrightarrow> i = c)"
  proof (intro allI impI)
    fix l c :: nat
    assume l: "l < 32" and c4: "c < 4"
      and r: "(wants parent_irq hints c l \<and> (\<forall>c'<4. c' \<noteq> c \<longrightarrow> \<not> wants parent_irq hints c' l))
           \<or> (c = fb \<and> ((\<forall>c'<4. \<not> wants parent_irq hints c' l)
                 \<or> (\<exists>i<4. \<exists>j<i. wants parent_irq hints i l \<and> wants parent_irq hints j l)))"
    from r have r': "(claims ?priv hints c l \<and> (\<forall>c'<4. c' \<noteq> c \<longrightarrow> \<not> claims ?priv hints c' l))
           \<or> (c = fb \<and> ((\<forall>c'<4. \<not> claims ?priv hints c' l)
                 \<or> (\<exists>i<4. \<exists>j<i. claims ?priv hints i l \<and> claims ?priv hints j l)))"
      unfolding c1 c2 c3 c [OF c4] .
    from res [rule_format, OF l c4 r'] show "map_cache ?priv' ! l = ucast (push_bit IOINTC_SHIFT_INTx (BIT c))
             \<and> (\<forall>i<4. bit (parent_int_map (handler ?priv' ! i)) l \<longleftrightarrow> i = c)"
      by simp
  qed
  ultimately show ?thesis
    by (rule that)
qed

subsection \<open>Every line has a parent\<close>

lemma bit_INTx:
  "c < 4 \<Longrightarrow> bit (ucast (push_bit IOINTC_SHIFT_INTx (BIT c)) :: u8) n \<longleftrightarrow> n = IOINTC_SHIFT_INTx + c"
  by (auto simp add: bit_simps bit_BIT)

lemma INTx_inject:
  assumes "c < 4" "c' < 4"
    and "(ucast (push_bit IOINTC_SHIFT_INTx (BIT c)) :: u8) = ucast (push_bit IOINTC_SHIFT_INTx (BIT c'))"
  shows "c = c'"
proof -
  have "bit (ucast (push_bit IOINTC_SHIFT_INTx (BIT c)) :: u8) (IOINTC_SHIFT_INTx + c)"
    using assms(1) by (simp add: bit_INTx)
  then have "bit (ucast (push_bit IOINTC_SHIFT_INTx (BIT c')) :: u8) (IOINTC_SHIFT_INTx + c)"
    by (simp only: assms(3))
  then show ?thesis
    using assms(2) by (simp add: bit_INTx)
qed

lemma lowest_available:
  fixes parent_irq :: "nat \<Rightarrow> int"
  assumes "c < 4" "0 \<le> parent_irq c"
  shows "\<exists>fb<4. 0 \<le> parent_irq fb \<and> (\<forall>c<fb. parent_irq c < 0)"
proof -
  define fb where "fb = (LEAST c. 0 \<le> parent_irq c)"
  have "0 \<le> parent_irq fb"
    unfolding fb_def using assms(2) by (rule LeastI)
  moreover have "fb \<le> c"
    unfolding fb_def using assms(2) by (rule Least_le)
  then have "fb < 4"
    using assms(1) by simp
  moreover have "parent_irq c' < 0" if "c' < fb" for c'
    using not_less_Least [of c' "\<lambda>c. 0 \<le> parent_irq c"] that by (simp add: fb_def)
  ultimately show ?thesis
    by blast
qed

lemma resolution_cases:
  fixes W :: "nat \<Rightarrow> bool"
  obtains (none) "\<forall>c<n. \<not> W c"
  | (several) "\<exists>i<n. \<exists>j<i. W i \<and> W j"
  | (single) c where "c < n" "W c" "\<forall>c'<n. c' \<noteq> c \<longrightarrow> \<not> W c'"
proof (cases "\<exists>c<n. W c")
  case False
  then show ?thesis using none by blast
next
  case True
  then obtain c where c: "c < n" "W c" by blast
  show ?thesis
  proof (cases "\<exists>c'<n. c' \<noteq> c \<and> W c'")
    case False
    with c show ?thesis using single by blast
  next
    case True
    then obtain c' where c': "c' < n" "c' \<noteq> c" "W c'" by blast
    then consider "c' < c" | "c < c'" by (meson linorder_neqE_nat)
    then show ?thesis
    proof cases
      case 1
      with c c' show ?thesis using several by blast
    next
      case 2
      with c c' show ?thesis using several by blast
    qed
  qed
qed

lemma several_iff:
  "(\<exists>i<n. \<exists>j<i. W i \<and> W j) \<longleftrightarrow> (\<exists>i<n. \<exists>j<n. i \<noteq> j \<and> W i \<and> W j)" for n :: nat
proof
  assume "\<exists>i<n. \<exists>j<i. W i \<and> W j"
  then obtain i j where "i < n" "j < i" "W i" "W j" by blast
  moreover from this have "j < n" "i \<noteq> j" by simp_all
  ultimately show "\<exists>i<n. \<exists>j<n. i \<noteq> j \<and> W i \<and> W j" by blast
next
  assume "\<exists>i<n. \<exists>j<n. i \<noteq> j \<and> W i \<and> W j"
  then obtain i j where ij: "i < n" "j < n" "i \<noteq> j" "W i" "W j" by blast
  then consider "i < j" | "j < i" by (meson linorder_neqE_nat)
  then show "\<exists>i<n. \<exists>j<i. W i \<and> W j"
  proof cases
    case 1
    with ij show ?thesis by blast
  next
    case 2
    with ij show ?thesis by blast
  qed
qed

lemma all_less_4: "(\<forall>c<4. P c) \<longleftrightarrow> P (0 :: nat) \<and> P 1 \<and> P 2 \<and> P 3"
proof -
  have "c < 4 \<longleftrightarrow> c = 0 \<or> c = 1 \<or> c = 2 \<or> c = 3" for c :: nat
    by auto
  then show ?thesis
    by auto
qed

lemma probe_and_validate_total:
  assumes len: "length hints = 4" and some: "\<exists>c<4. 0 \<le> parent_irq c"
  obtains priv' warnings where
    "probe_and_validate parent_irq hints = Inr (priv', warnings)"
    "length (map_cache priv') = 32" "length (handler priv') = 4"
    "\<forall>l<32. \<exists>c<4. 0 \<le> parent_irq c
        \<and> map_cache priv' ! l = ucast (push_bit IOINTC_SHIFT_INTx (BIT c))
        \<and> (\<forall>i<4. bit (parent_int_map (handler priv' ! i)) l \<longleftrightarrow> i = c)"
proof -
  from some obtain c0 where "c0 < 4" "0 \<le> parent_irq c0"
    by blast
  then obtain fb where fb: "fb < 4" "0 \<le> parent_irq fb" "\<forall>c<fb. parent_irq c < 0"
    using lowest_available [of c0 parent_irq] by blast
  obtain priv' where run: "probe_and_validate parent_irq hints =
        Inr (priv',
             map (\<lambda>l. Homeless_IRQ l fb) (filter (\<lambda>l. \<forall>c<4. \<not> wants parent_irq hints c l) [0..<32])
             @ map (\<lambda>l. Multiple_Parents l fb)
                 (filter (\<lambda>l. \<exists>i<4. \<exists>j<i. wants parent_irq hints i l \<and> wants parent_irq hints j l) [0..<32]))"
    and lens: "length (handler priv') = 4" "length (map_cache priv') = 32"
    and res: "\<forall>l<32. \<forall>c<4.
           (wants parent_irq hints c l \<and> (\<forall>c'<4. c' \<noteq> c \<longrightarrow> \<not> wants parent_irq hints c' l))
           \<or> (c = fb \<and> ((\<forall>c'<4. \<not> wants parent_irq hints c' l)
                 \<or> (\<exists>i<4. \<exists>j<i. wants parent_irq hints i l \<and> wants parent_irq hints j l)))
         \<longrightarrow> map_cache priv' ! l = ucast (push_bit IOINTC_SHIFT_INTx (BIT c))
             \<and> (\<forall>i<4. bit (parent_int_map (handler priv' ! i)) l \<longleftrightarrow> i = c)"
    by (rule probe_and_validate_result [OF len fb])
  have "\<forall>l<32. \<exists>c<4. 0 \<le> parent_irq c
        \<and> map_cache priv' ! l = ucast (push_bit IOINTC_SHIFT_INTx (BIT c))
        \<and> (\<forall>i<4. bit (parent_int_map (handler priv' ! i)) l \<longleftrightarrow> i = c)"
  proof (intro allI impI)
    fix l :: nat
    assume l: "l < 32"
    show "\<exists>c<4. 0 \<le> parent_irq c
        \<and> map_cache priv' ! l = ucast (push_bit IOINTC_SHIFT_INTx (BIT c))
        \<and> (\<forall>i<4. bit (parent_int_map (handler priv' ! i)) l \<longleftrightarrow> i = c)"
    proof (rule resolution_cases [where n = 4 and W = "\<lambda>c. wants parent_irq hints c l"])
      assume "\<forall>c<4. \<not> wants parent_irq hints c l"
      with res [rule_format, OF l fb(1)] fb(1,2) show ?thesis
        by blast
    next
      assume "\<exists>i<4. \<exists>j<i. wants parent_irq hints i l \<and> wants parent_irq hints j l"
      with res [rule_format, OF l fb(1)] fb(1,2) show ?thesis
        by blast
    next
      fix c
      assume single: "c < 4" "wants parent_irq hints c l"
        "\<forall>c'<4. c' \<noteq> c \<longrightarrow> \<not> wants parent_irq hints c' l"
      from single(2) have "0 \<le> parent_irq c"
        by (simp add: wants_def)
      with res [rule_format, OF l single(1)] single show ?thesis
        by blast
    qed
  qed
  with run lens(2,1) show ?thesis
    by (rule that)
qed

lemma probe_and_validate_line:
  assumes len: "length hints = 4"
    and fb: "fb < 4" "0 \<le> parent_irq fb" "\<forall>c<fb. parent_irq c < 0"
    and l: "l < 32" and c: "c < 4"
    and r: "(wants parent_irq hints c l \<and> (\<forall>c'<4. c' \<noteq> c \<longrightarrow> \<not> wants parent_irq hints c' l))
           \<or> (c = fb \<and> ((\<forall>c'<4. \<not> wants parent_irq hints c' l)
                 \<or> (\<exists>i<4. \<exists>j<i. wants parent_irq hints i l \<and> wants parent_irq hints j l)))"
  shows "\<exists>priv' warnings. probe_and_validate parent_irq hints = Inr (priv', warnings)
      \<and> map_cache priv' ! l = ucast (push_bit IOINTC_SHIFT_INTx (BIT c))
      \<and> (\<forall>i<4. bit (parent_int_map (handler priv' ! i)) l \<longleftrightarrow> i = c)"
proof -
  obtain priv' where run: "probe_and_validate parent_irq hints =
        Inr (priv',
             map (\<lambda>l. Homeless_IRQ l fb) (filter (\<lambda>l. \<forall>c<4. \<not> wants parent_irq hints c l) [0..<32])
             @ map (\<lambda>l. Multiple_Parents l fb)
                 (filter (\<lambda>l. \<exists>i<4. \<exists>j<i. wants parent_irq hints i l \<and> wants parent_irq hints j l) [0..<32]))"
    and lens: "length (handler priv') = 4" "length (map_cache priv') = 32"
    and mask: "\<forall>i. bit (possible_parent_mask priv') i \<longleftrightarrow> i < 4 \<and> 0 \<le> parent_irq i"
    and res: "\<forall>l<32. \<forall>c<4.
           (wants parent_irq hints c l \<and> (\<forall>c'<4. c' \<noteq> c \<longrightarrow> \<not> wants parent_irq hints c' l))
           \<or> (c = fb \<and> ((\<forall>c'<4. \<not> wants parent_irq hints c' l)
                 \<or> (\<exists>i<4. \<exists>j<i. wants parent_irq hints i l \<and> wants parent_irq hints j l)))
         \<longrightarrow> map_cache priv' ! l = ucast (push_bit IOINTC_SHIFT_INTx (BIT c))
             \<and> (\<forall>i<4. bit (parent_int_map (handler priv' ! i)) l \<longleftrightarrow> i = c)"
    by (rule probe_and_validate_result [OF len fb])
  from res [rule_format, OF l c r] run show ?thesis
    by blast
qed

lemma ex_less_4: "(\<exists>c<4. P c) \<longleftrightarrow> P (0 :: nat) \<or> P 1 \<or> P 2 \<or> P 3"
proof -
  have "c < 4 \<longleftrightarrow> c = 0 \<or> c = 1 \<or> c = 2 \<or> c = 3" for c :: nat
    by auto
  then show ?thesis
    by auto
qed

lemma ex_less_numeral:
  "(\<exists>j<(0 :: nat). P j) \<longleftrightarrow> False"
  "(\<exists>j<(1 :: nat). P j) \<longleftrightarrow> P 0"
  "(\<exists>j<(2 :: nat). P j) \<longleftrightarrow> P 0 \<or> P 1"
  "(\<exists>j<(3 :: nat). P j) \<longleftrightarrow> P 0 \<or> P 1 \<or> P 2"
proof -
  have "j < 2 \<longleftrightarrow> j = 0 \<or> j = 1" "j < 3 \<longleftrightarrow> j = 0 \<or> j = 1 \<or> j = 2" for j :: nat
    by auto
  then show "(\<exists>j<(0 :: nat). P j) \<longleftrightarrow> False" "(\<exists>j<(1 :: nat). P j) \<longleftrightarrow> P 0"
    "(\<exists>j<(2 :: nat). P j) \<longleftrightarrow> P 0 \<or> P 1" "(\<exists>j<(3 :: nat). P j) \<longleftrightarrow> P 0 \<or> P 1 \<or> P 2"
    by auto
qed

lemma length_assignment_hints: "length (assignment_hints cache) = 4"
  by (simp add: assignment_hints_def)

lemma bit_assignment_hints:
  assumes "c < 4"
  shows "bit (assignment_hints cache ! c) l \<longleftrightarrow>
    l < 32 \<and> cache ! l = ucast (push_bit IOINTC_SHIFT_INTx (BIT c))"
  using assms by (auto simp add: assignment_hints_def bit_horner_sum_bit_word_iff)

subsection \<open>Thirty-two rounds are enough for each loop\<close>

lemma length_lines_of_le: "length (lines_of m) \<le> 32"
  using length_filter_le [of "bit m" "[0..<32]"] by (simp add: lines_of_def)

lemma lines_of_pos:
  assumes "m \<noteq> 0"
  shows "lines_of m \<noteq> []"
proof -
  from assms obtain n where "bit m n"
    by (auto simp add: bit_eq_iff)
  moreover from this have "n < 32"
    by (rule bit_u32_less)
  ultimately have "n \<in> set (lines_of m)"
    by (simp add: lines_of_def)
  then show ?thesis
    by auto
qed

lemma run_while_enough:
  fixes size :: "'s \<Rightarrow> nat"
  assumes unfold: "\<And>s. loop s =
      (if continue s then (case step s of Inl e \<Rightarrow> Inl e | Inr s' \<Rightarrow> loop s') else Inr s)"
    and decreases: "\<And>s s'. step s = Inr s' \<Longrightarrow> size s' < size s"
    and positive: "\<And>s. continue s \<Longrightarrow> 0 < size s"
  shows "size s \<le> n \<Longrightarrow> run_while n continue step s = Some (loop s)"
proof (induction n arbitrary: s)
  case 0
  then have "\<not> continue s"
    using positive [of s] by auto
  then show ?case
    by (simp add: unfold [of s])
next
  case (Suc n)
  show ?case
  proof (cases "continue s")
    case False
    then show ?thesis
      by (simp add: unfold [of s])
  next
    case True
    show ?thesis
    proof (cases "step s")
      case (Inl e)
      with True show ?thesis
        by (simp add: unfold [of s])
    next
      case (Inr s')
      with decreases [of s s'] Suc.prems have "size s' \<le> n"
        by simp
      then have "run_while n continue step s' = Some (loop s')"
        by (rule Suc.IH)
      with True Inr show ?thesis
        by (simp add: unfold [of s])
    qed
  qed
qed

lemma homeless_loop_rounds:
  "run_while 32 (\<lambda>(priv, proceed_mask, warnings). NOT proceed_mask \<noteq> 0) (homeless_step fb) s
     = Some (homeless_loop fb s)"
proof (rule run_while_enough [where size = "\<lambda>(priv, proceed_mask, warnings). length (lines_of (NOT proceed_mask))"])
  fix s :: "iointc_priv \<times> u32 \<times> warning list"
  obtain priv m w where s: "s = (priv, m, w)"
    by (cases s) auto
  show "homeless_loop fb s =
      (if (case s of (priv, proceed_mask, warnings) \<Rightarrow> NOT proceed_mask \<noteq> 0)
       then (case homeless_step fb s of Inl e \<Rightarrow> Inl e | Inr s' \<Rightarrow> homeless_loop fb s') else Inr s)"
    by (simp add: s homeless_loop.simps [of fb priv m w])
  show "0 < (case s of (priv, proceed_mask, warnings) \<Rightarrow> length (lines_of (NOT proceed_mask)))"
    if "case s of (priv, proceed_mask, warnings) \<Rightarrow> NOT proceed_mask \<noteq> 0"
    using that by (simp add: s lines_of_pos)
  show "(case s of (priv, proceed_mask, warnings) \<Rightarrow> length (lines_of (NOT proceed_mask))) \<le> 32"
    by (simp add: s length_lines_of_le)
next
  fix s s' :: "iointc_priv \<times> u32 \<times> warning list"
  assume "homeless_step fb s = Inr s'"
  then show "(case s' of (priv, proceed_mask, warnings) \<Rightarrow> length (lines_of (NOT proceed_mask)))
      < (case s of (priv, proceed_mask, warnings) \<Rightarrow> length (lines_of (NOT proceed_mask)))"
    by (cases s; cases s') (auto dest: homeless_step_decreases)
qed

lemma duplicated_loop_rounds:
  "run_while 32 (\<lambda>(priv, duplicated_mask, warnings). duplicated_mask \<noteq> 0) (duplicated_step fb) s
     = Some (duplicated_loop fb s)"
proof (rule run_while_enough [where size = "\<lambda>(priv, duplicated_mask, warnings). length (lines_of duplicated_mask)"])
  fix s :: "iointc_priv \<times> u32 \<times> warning list"
  obtain priv m w where s: "s = (priv, m, w)"
    by (cases s) auto
  show "duplicated_loop fb s =
      (if (case s of (priv, duplicated_mask, warnings) \<Rightarrow> duplicated_mask \<noteq> 0)
       then (case duplicated_step fb s of Inl e \<Rightarrow> Inl e | Inr s' \<Rightarrow> duplicated_loop fb s') else Inr s)"
    by (simp add: s duplicated_loop.simps [of fb priv m w])
  show "0 < (case s of (priv, duplicated_mask, warnings) \<Rightarrow> length (lines_of duplicated_mask))"
    if "case s of (priv, duplicated_mask, warnings) \<Rightarrow> duplicated_mask \<noteq> 0"
    using that by (simp add: s lines_of_pos)
  show "(case s of (priv, duplicated_mask, warnings) \<Rightarrow> length (lines_of duplicated_mask)) \<le> 32"
    by (simp add: s length_lines_of_le)
next
  fix s s' :: "iointc_priv \<times> u32 \<times> warning list"
  assume "duplicated_step fb s = Inr s'"
  then show "(case s' of (priv, duplicated_mask, warnings) \<Rightarrow> length (lines_of duplicated_mask))
      < (case s of (priv, duplicated_mask, warnings) \<Rightarrow> length (lines_of duplicated_mask))"
    by (cases s; cases s') (auto dest: duplicated_step_decreases)
qed

lemma map_cache_loop_rounds:
  "run_while 32 (\<lambda>(priv, pending). pending \<noteq> 0) (map_cache_step i) s = Some (map_cache_loop i s)"
proof (rule run_while_enough [where size = "\<lambda>(priv, pending). length (lines_of pending)"])
  fix s :: "iointc_priv \<times> u32"
  obtain priv m where s: "s = (priv, m)"
    by (cases s) auto
  show "map_cache_loop i s =
      (if (case s of (priv, pending) \<Rightarrow> pending \<noteq> 0)
       then (case map_cache_step i s of Inl e \<Rightarrow> Inl e | Inr s' \<Rightarrow> map_cache_loop i s') else Inr s)"
    by (simp add: s map_cache_loop.simps [of i priv m])
  show "0 < (case s of (priv, pending) \<Rightarrow> length (lines_of pending))"
    if "case s of (priv, pending) \<Rightarrow> pending \<noteq> 0"
    using that by (simp add: s lines_of_pos)
  show "(case s of (priv, pending) \<Rightarrow> length (lines_of pending)) \<le> 32"
    by (simp add: s length_lines_of_le)
next
  fix s s' :: "iointc_priv \<times> u32"
  assume "map_cache_step i s = Inr s'"
  then show "(case s' of (priv, pending) \<Rightarrow> length (lines_of pending))
      < (case s of (priv, pending) \<Rightarrow> length (lines_of pending))"
    by (cases s; cases s') (auto dest: map_cache_step_decreases)
qed

subsection \<open>A line and its own claims\<close>

lemma line_fate_by_claims:
  assumes len1: "length hints1 = 4" and len2: "length hints2 = 4"
    and some: "\<exists>c<4. 0 \<le> parent_irq c"
    and l1: "l1 < 32" and l2: "l2 < 32"
    and agree: "\<forall>c<4. 0 \<le> parent_irq c \<longrightarrow> (bit (hints1 ! c) l1 \<longleftrightarrow> bit (hints2 ! c) l2)"
  shows "\<exists>priv1 warnings1 priv2 warnings2.
      probe_and_validate parent_irq hints1 = Inr (priv1, warnings1)
      \<and> probe_and_validate parent_irq hints2 = Inr (priv2, warnings2)
      \<and> map_cache priv1 ! l1 = map_cache priv2 ! l2"
proof -
  from some obtain c0 where "c0 < 4" "0 \<le> parent_irq c0"
    by blast
  from lowest_available [of c0 parent_irq, OF this]
  obtain fb where fb: "fb < 4" "0 \<le> parent_irq fb" "\<forall>c<fb. parent_irq c < 0"
    by blast
  have same: "wants parent_irq hints1 c l1 \<longleftrightarrow> wants parent_irq hints2 c l2" if "c < 4" for c
    using agree that by (auto simp add: wants_def)
  have "\<exists>c<4.
      ((wants parent_irq hints1 c l1 \<and> (\<forall>c'<4. c' \<noteq> c \<longrightarrow> \<not> wants parent_irq hints1 c' l1))
        \<or> (c = fb \<and> ((\<forall>c'<4. \<not> wants parent_irq hints1 c' l1)
             \<or> (\<exists>i<4. \<exists>j<i. wants parent_irq hints1 i l1 \<and> wants parent_irq hints1 j l1))))
      \<and> ((wants parent_irq hints2 c l2 \<and> (\<forall>c'<4. c' \<noteq> c \<longrightarrow> \<not> wants parent_irq hints2 c' l2))
        \<or> (c = fb \<and> ((\<forall>c'<4. \<not> wants parent_irq hints2 c' l2)
             \<or> (\<exists>i<4. \<exists>j<i. wants parent_irq hints2 i l2 \<and> wants parent_irq hints2 j l2))))"
  proof (rule resolution_cases [where n = 4 and W = "\<lambda>c. wants parent_irq hints1 c l1"])
    assume none: "\<forall>c<4. \<not> wants parent_irq hints1 c l1"
    then have "\<forall>c<4. \<not> wants parent_irq hints2 c l2"
      using same by simp
    with none fb(1) show ?thesis
      by blast
  next
    assume "\<exists>i<4. \<exists>j<i. wants parent_irq hints1 i l1 \<and> wants parent_irq hints1 j l1"
    then obtain i j where ij: "i < 4" "j < i" "wants parent_irq hints1 i l1" "wants parent_irq hints1 j l1"
      by blast
    then have "j < 4"
      by simp
    with ij same [of i] same [of j] have "wants parent_irq hints2 i l2" "wants parent_irq hints2 j l2"
      by simp_all
    with ij fb(1) show ?thesis
      by blast
  next
    fix c
    assume single: "c < 4" "wants parent_irq hints1 c l1"
      "\<forall>c'<4. c' \<noteq> c \<longrightarrow> \<not> wants parent_irq hints1 c' l1"
    then have "wants parent_irq hints2 c l2" "\<forall>c'<4. c' \<noteq> c \<longrightarrow> \<not> wants parent_irq hints2 c' l2"
      using same by simp_all
    with single show ?thesis
      by blast
  qed
  then obtain c where c: "c < 4"
    and r1: "(wants parent_irq hints1 c l1 \<and> (\<forall>c'<4. c' \<noteq> c \<longrightarrow> \<not> wants parent_irq hints1 c' l1))
        \<or> (c = fb \<and> ((\<forall>c'<4. \<not> wants parent_irq hints1 c' l1)
             \<or> (\<exists>i<4. \<exists>j<i. wants parent_irq hints1 i l1 \<and> wants parent_irq hints1 j l1)))"
    and r2: "(wants parent_irq hints2 c l2 \<and> (\<forall>c'<4. c' \<noteq> c \<longrightarrow> \<not> wants parent_irq hints2 c' l2))
        \<or> (c = fb \<and> ((\<forall>c'<4. \<not> wants parent_irq hints2 c' l2)
             \<or> (\<exists>i<4. \<exists>j<i. wants parent_irq hints2 i l2 \<and> wants parent_irq hints2 j l2)))"
    by blast
  from probe_and_validate_line [OF len1 fb l1 c r1]
  obtain priv1 warnings1 where 1: "probe_and_validate parent_irq hints1 = Inr (priv1, warnings1)"
    "map_cache priv1 ! l1 = ucast (push_bit IOINTC_SHIFT_INTx (BIT c))"
    by blast
  from probe_and_validate_line [OF len2 fb l2 c r2]
  obtain priv2 warnings2 where 2: "probe_and_validate parent_irq hints2 = Inr (priv2, warnings2)"
    "map_cache priv2 ! l2 = ucast (push_bit IOINTC_SHIFT_INTx (BIT c))"
    by blast
  from 1 2 have "map_cache priv1 ! l1 = map_cache priv2 ! l2"
    by simp
  with 1(1) 2(1) show ?thesis
    by blast
qed

text \<open>
  Renumbering the lines renumbers the result: the map cache entry of a line does not
  depend on where the line stands in the order in which the loops take the lines.
\<close>

lemma line_order_does_not_matter:
  assumes "length hints1 = 4" "length hints2 = 4" "\<exists>c<4. 0 \<le> parent_irq c"
    and "\<forall>l<32. renumber l < 32"
    and "\<forall>c<4. \<forall>l<32. bit (hints2 ! c) (renumber l) \<longleftrightarrow> bit (hints1 ! c) l"
  shows "\<exists>priv1 warnings1 priv2 warnings2.
      probe_and_validate parent_irq hints1 = Inr (priv1, warnings1)
      \<and> probe_and_validate parent_irq hints2 = Inr (priv2, warnings2)
      \<and> (\<forall>l<32. map_cache priv2 ! renumber l = map_cache priv1 ! l)"
proof -
  obtain priv1 warnings1 where 1: "probe_and_validate parent_irq hints1 = Inr (priv1, warnings1)"
    and "length (map_cache priv1) = 32" "length (handler priv1) = 4"
    and "\<forall>l<32. \<exists>c<4. 0 \<le> parent_irq c
        \<and> map_cache priv1 ! l = ucast (push_bit IOINTC_SHIFT_INTx (BIT c))
        \<and> (\<forall>i<4. bit (parent_int_map (handler priv1 ! i)) l \<longleftrightarrow> i = c)"
    by (rule probe_and_validate_total [OF assms(1,3)])
  obtain priv2 warnings2 where 2: "probe_and_validate parent_irq hints2 = Inr (priv2, warnings2)"
    and "length (map_cache priv2) = 32" "length (handler priv2) = 4"
    and "\<forall>l<32. \<exists>c<4. 0 \<le> parent_irq c
        \<and> map_cache priv2 ! l = ucast (push_bit IOINTC_SHIFT_INTx (BIT c))
        \<and> (\<forall>i<4. bit (parent_int_map (handler priv2 ! i)) l \<longleftrightarrow> i = c)"
    by (rule probe_and_validate_total [OF assms(2,3)])
  have "map_cache priv2 ! renumber l = map_cache priv1 ! l" if l: "l < 32" for l
  proof -
    from assms(4) l have l': "renumber l < 32"
      by simp
    have "\<forall>c<4. 0 \<le> parent_irq c \<longrightarrow> (bit (hints1 ! c) l \<longleftrightarrow> bit (hints2 ! c) (renumber l))"
      using assms(5) l by simp
    from line_fate_by_claims [OF assms(1,2,3) l l' this] 1 2 show ?thesis
      by simp
  qed
  with 1 2 show ?thesis
    by blast
qed

subsection \<open>The whole of \<^verbatim>\<open>iointc_of_init\<close>\<close>

lemma set_core_loop_result:
  assumes "k \<le> length (map_cache priv)"
  shows "\<exists>mc. for_loop [0..<k] (\<lambda>i priv. map_cache_set_core priv i core) priv = Inr (priv\<lparr>map_cache := mc\<rparr>)
     \<and> length mc = length (map_cache priv)
     \<and> (\<forall>i<length mc. mc ! i =
           (if i < k then or_assign (and_assign (map_cache priv ! i) (NOT (GENMASK 3 0))) (BIT core)
            else map_cache priv ! i))"
  using assms
proof (induction k)
  case 0
  have "priv\<lparr>map_cache := map_cache priv\<rparr> = priv" by simp
  then show ?case
    by (intro exI [of _ "map_cache priv"]) simp
next
  case (Suc k)
  then obtain mc where run: "for_loop [0..<k] (\<lambda>i priv. map_cache_set_core priv i core) priv = Inr (priv\<lparr>map_cache := mc\<rparr>)"
    and len: "length mc = length (map_cache priv)"
    and mc: "\<And>i. i < length mc \<Longrightarrow> mc ! i =
           (if i < k then or_assign (and_assign (map_cache priv ! i) (NOT (GENMASK 3 0))) (BIT core)
            else map_cache priv ! i)"
    by auto
  from Suc.prems len have k: "k < length mc" by simp
  let ?mc = "mc[k := or_assign (and_assign (mc ! k) (NOT (GENMASK 3 0))) (BIT core)]"
  have "for_loop [0..<Suc k] (\<lambda>i priv. map_cache_set_core priv i core) priv
      = for_loop [k] (\<lambda>i priv. map_cache_set_core priv i core) (priv\<lparr>map_cache := mc\<rparr>)"
    by (simp add: for_loop_append run)
  also have "\<dots> = Inr (priv\<lparr>map_cache := ?mc\<rparr>)"
    using k by (simp add: map_cache_set_core_def)
  finally have "for_loop [0..<Suc k] (\<lambda>i priv. map_cache_set_core priv i core) priv
      = Inr (priv\<lparr>map_cache := ?mc\<rparr>)" .
  moreover have "length ?mc = length (map_cache priv)"
    using len by simp
  moreover have "?mc ! i =
           (if i < Suc k then or_assign (and_assign (map_cache priv ! i) (NOT (GENMASK 3 0))) (BIT core)
            else map_cache priv ! i)"
    if "i < length ?mc" for i
    using that k mc [of i] mc [of k] by (auto simp add: nth_list_update less_Suc_eq)
  ultimately show ?case
    by blast
qed

lemma bit_GENMASK: "bit (GENMASK h l) n \<longleftrightarrow> l \<le> n \<and> n \<le> h \<and> n < 64"
  by (auto simp add: GENMASK_def bit_simps less_Suc_eq_le)

lemma bit_set_core:
  "bit (or_assign (and_assign (v :: u8) (NOT (GENMASK 3 0))) (BIT core)) n \<longleftrightarrow>
     (bit v n \<and> 4 \<le> n) \<or> (n = core \<and> core < 8)"
  by (auto simp add: or_assign_def and_assign_def bit_simps bit_BIT bit_GENMASK dest: bit_u8_less)

lemma probe_and_validate_unfold:
  assumes "possible_parent_mask (fold (probe_parent parent_irq) [0..<4] kzalloc_priv) \<noteq> 0"
  shows "probe_and_validate parent_irq hints =
    (case validate_parent_mask (fold (probe_parent parent_irq) [0..<4] kzalloc_priv) hints of
       Inl e \<Rightarrow> Inl (Undefined_Behaviour e) | Inr r \<Rightarrow> Inr r)"
  using assms by (simp add: probe_and_validate_def Let_def)

lemma probed_mask_zero_iff:
  "possible_parent_mask (fold (probe_parent parent_irq) [0..<4] kzalloc_priv) = 0
     \<longleftrightarrow> (\<forall>c<4. parent_irq c < 0)"
proof -
  obtain m where run: "fold (probe_parent parent_irq) [0..<4] kzalloc_priv = kzalloc_priv\<lparr>possible_parent_mask := m\<rparr>"
    and m: "\<forall>i. bit m i \<longleftrightarrow> i < 4 \<and> 0 \<le> parent_irq i"
    by (rule probed_priv)
  have "m = 0 \<longleftrightarrow> (\<forall>c<4. parent_irq c < 0)"
  proof
    assume "m = 0"
    show "\<forall>c<4. parent_irq c < 0"
    proof (intro allI impI)
      fix c :: nat
      assume "c < 4"
      from m have "bit m c \<longleftrightarrow> c < 4 \<and> 0 \<le> parent_irq c"
        by (rule spec)
      with \<open>m = 0\<close> \<open>c < 4\<close> show "parent_irq c < 0"
        by simp
    qed
  next
    assume neg: "\<forall>c<4. parent_irq c < 0"
    show "m = 0"
    proof (rule bit_eqI)
      fix n
      from m have "bit m n \<longleftrightarrow> n < 4 \<and> 0 \<le> parent_irq n"
        by (rule spec)
      with neg show "bit m n \<longleftrightarrow> bit (0 :: u8) n"
        by (cases "n < 4") (simp_all add: not_le)
    qed
  qed
  then show ?thesis
    by (simp add: run)
qed

text \<open>
  With every answer of the kernel good, \<open>iointc_of_init\<close> is
  \<open>probe_and_validate\<close> followed by the loop that sets the core.
\<close>

lemma iointc_of_init_success:
  assumes len: "length (prop_cells env) = 4"
    and ok: "kzalloc_ok env" "of_iomap_ok env" "4 \<le> prop_sz env" "domain_ok env" "chips_err env = 0"
    and some: "\<exists>c<4. 0 \<le> irq_by_name env c"
  shows "\<exists>priv' warnings.
      probe_and_validate (irq_by_name env) (prop_cells env) = Inr (priv', warnings)
      \<and> iointc_of_init env =
          Inr (priv'\<lparr>map_cache :=
                 map (\<lambda>v. or_assign (and_assign v (NOT (GENMASK 3 0))) (BIT (boot_cpu_id env)))
                   (map_cache priv')\<rparr>, warnings)"
proof -
  let ?priv = "fold (probe_parent (irq_by_name env)) [0..<4] kzalloc_priv"
  obtain priv' warnings where run: "probe_and_validate (irq_by_name env) (prop_cells env) = Inr (priv', warnings)"
    and lens: "length (map_cache priv') = 32" "length (handler priv') = 4"
    and "\<forall>l<32. \<exists>c<4. 0 \<le> irq_by_name env c
        \<and> map_cache priv' ! l = ucast (push_bit IOINTC_SHIFT_INTx (BIT c))
        \<and> (\<forall>i<4. bit (parent_int_map (handler priv' ! i)) l \<longleftrightarrow> i = c)"
    by (rule probe_and_validate_total [OF len some])
  from some have mask: "possible_parent_mask ?priv \<noteq> 0"
    by (auto simp add: probed_mask_zero_iff not_less)
  from run probe_and_validate_unfold [OF mask, of "prop_cells env"]
  have v: "validate_parent_mask ?priv (prop_cells env) = Inr (priv', warnings)"
    by (auto split: sum.splits)
  from set_core_loop_result [of 32 priv' "boot_cpu_id env"] lens(1)
  obtain mc where loop: "for_loop [0..<32] (\<lambda>i priv. map_cache_set_core priv i (boot_cpu_id env)) priv'
        = Inr (priv'\<lparr>map_cache := mc\<rparr>)"
    and len_mc: "length mc = 32"
    and mc: "\<forall>i<32. mc ! i = or_assign (and_assign (map_cache priv' ! i) (NOT (GENMASK 3 0))) (BIT (boot_cpu_id env))"
    by auto
  have "mc = map (\<lambda>v. or_assign (and_assign v (NOT (GENMASK 3 0))) (BIT (boot_cpu_id env))) (map_cache priv')"
    using len_mc lens(1) mc by (intro nth_equalityI) simp_all
  with loop have "iointc_of_init env =
          Inr (priv'\<lparr>map_cache :=
                 map (\<lambda>v. or_assign (and_assign v (NOT (GENMASK 3 0))) (BIT (boot_cpu_id env)))
                   (map_cache priv')\<rparr>, warnings)"
    using ok mask by (simp add: iointc_of_init_def Let_def v)
  with run show ?thesis
    by blast
qed

lemma iointc_of_init_ffs_fault:
  "iointc_of_init env \<noteq> Inl (Faulted Ffs_Of_Zero)"
proof -
  have "for_loop [0..<32] (\<lambda>i priv. map_cache_set_core priv i core) priv \<noteq> Inl Ffs_Of_Zero" for core priv
    by (rule for_loop_fault) (simp add: map_cache_set_core_def)
  then show ?thesis
    using validate_parent_mask_ffs_fault
    by (auto simp add: iointc_of_init_def Let_def split: sum.splits)
qed


text \<open>
  On return each line still has the parent that \<^verbatim>\<open>validate_parent_mask\<close> gave
  it: setting the core rewrites the low four bits of the entry only, as long as the boot
  core is one of the four that these bits name.
\<close>

lemma iointc_of_init_keeps_parents:
  assumes "length (prop_cells env) = 4"
    and "kzalloc_ok env" "of_iomap_ok env" "4 \<le> prop_sz env" "domain_ok env" "chips_err env = 0"
    and "\<exists>c<4. 0 \<le> irq_by_name env c"
    and "boot_cpu_id env < 4"
  shows "\<exists>priv' warnings priv''.
      probe_and_validate (irq_by_name env) (prop_cells env) = Inr (priv', warnings)
      \<and> iointc_of_init env = Inr (priv'', warnings)
      \<and> handler priv'' = handler priv'
      \<and> (\<forall>l<32. \<forall>n. 4 \<le> n \<longrightarrow> bit (map_cache priv'' ! l) n \<longleftrightarrow> bit (map_cache priv' ! l) n)"
proof -
  obtain priv' warnings where run: "probe_and_validate (irq_by_name env) (prop_cells env) = Inr (priv', warnings)"
    and lens: "length (map_cache priv') = 32" "length (handler priv') = 4"
    and "\<forall>l<32. \<exists>c<4. 0 \<le> irq_by_name env c
        \<and> map_cache priv' ! l = ucast (push_bit IOINTC_SHIFT_INTx (BIT c))
        \<and> (\<forall>i<4. bit (parent_int_map (handler priv' ! i)) l \<longleftrightarrow> i = c)"
    by (rule probe_and_validate_total [OF assms(1,7)])
  from iointc_of_init_success [OF assms(1-7)] run
  have init: "iointc_of_init env =
          Inr (priv'\<lparr>map_cache :=
                 map (\<lambda>v. or_assign (and_assign v (NOT (GENMASK 3 0))) (BIT (boot_cpu_id env)))
                   (map_cache priv')\<rparr>, warnings)" (is "_ = Inr (?priv'', _)")
    by auto
  have "bit (map_cache ?priv'' ! l) n \<longleftrightarrow> bit (map_cache priv' ! l) n" if "l < 32" "4 \<le> n" for l n
    using that lens(1) assms(8) by (auto simp add: bit_set_core)
  moreover have "handler ?priv'' = handler priv'"
    by simp
  ultimately show ?thesis
    using run init by blast
qed

section \<open>The claims\<close>

text \<open>
  The claims about the assignment are stated on \<open>probe_and_validate\<close>, that is on
  \<open>priv\<close> as \<^verbatim>\<open>validate_parent_mask\<close> leaves it when it is called
  on the zeroed \<open>priv\<close> with the available parents. Lemmas
  \<open>iointc_of_init_success\<close> and \<open>iointc_of_init_keeps_parents\<close> carry them to
  the return of \<^verbatim>\<open>iointc_of_init\<close>: the maps of the parents are the same and
  only the low four bits of a map cache entry change. The claim about failures is stated
  on \<open>iointc_of_init\<close> itself.
\<close>

text \<open>
  C1: for every hint table and every non-empty set of available parents, the function
  returns, the map cache has one entry for each of the 32 lines, and the entry of a line
  is the byte of exactly one parent, which is an available one; the line is then in the
  map of that parent and of no other.
\<close>

theorem every_line_gets_one_available_parent:
  assumes "length of_parent_int_map = IOINTC_NUM_PARENT"
    and "\<exists>c<IOINTC_NUM_PARENT. 0 \<le> parent_irq c"
  shows "\<exists>priv' warnings.
      probe_and_validate parent_irq of_parent_int_map = Inr (priv', warnings)
      \<and> length (map_cache priv') = IOINTC_CHIP_IRQ
      \<and> (\<forall>l<IOINTC_CHIP_IRQ. \<exists>c<IOINTC_NUM_PARENT. 0 \<le> parent_irq c
            \<and> map_cache priv' ! l = ucast (push_bit IOINTC_SHIFT_INTx (BIT c))
            \<and> (\<forall>c'<IOINTC_NUM_PARENT.
                  map_cache priv' ! l = ucast (push_bit IOINTC_SHIFT_INTx (BIT c')) \<longrightarrow> c' = c)
            \<and> (\<forall>c'<IOINTC_NUM_PARENT.
                  bit (parent_int_map (handler priv' ! c')) l \<longleftrightarrow> c' = c))"
proof -
  obtain priv' warnings where run: "probe_and_validate parent_irq of_parent_int_map = Inr (priv', warnings)"
    and len: "length (map_cache priv') = 32" "length (handler priv') = 4"
    and lines: "\<forall>l<32. \<exists>c<4. 0 \<le> parent_irq c
        \<and> map_cache priv' ! l = ucast (push_bit IOINTC_SHIFT_INTx (BIT c))
        \<and> (\<forall>i<4. bit (parent_int_map (handler priv' ! i)) l \<longleftrightarrow> i = c)"
    by (rule probe_and_validate_total [OF assms])
  have "\<forall>l<32. \<exists>c<4. 0 \<le> parent_irq c
            \<and> map_cache priv' ! l = ucast (push_bit IOINTC_SHIFT_INTx (BIT c))
            \<and> (\<forall>c'<4. map_cache priv' ! l = ucast (push_bit IOINTC_SHIFT_INTx (BIT c')) \<longrightarrow> c' = c)
            \<and> (\<forall>c'<4. bit (parent_int_map (handler priv' ! c')) l \<longleftrightarrow> c' = c)"
  proof (intro allI impI)
    fix l :: nat
    assume that: "l < 32"
    from lines that obtain c where c: "c < 4" "0 \<le> parent_irq c"
      "map_cache priv' ! l = ucast (push_bit IOINTC_SHIFT_INTx (BIT c))"
      "\<forall>i<4. bit (parent_int_map (handler priv' ! i)) l \<longleftrightarrow> i = c"
      by blast
    have "\<forall>c'<4. map_cache priv' ! l = ucast (push_bit IOINTC_SHIFT_INTx (BIT c')) \<longrightarrow> c' = c"
      using INTx_inject [of _ c] c(1,3) by simp
    with c show "\<exists>c<4. 0 \<le> parent_irq c
            \<and> map_cache priv' ! l = ucast (push_bit IOINTC_SHIFT_INTx (BIT c))
            \<and> (\<forall>c'<4. map_cache priv' ! l = ucast (push_bit IOINTC_SHIFT_INTx (BIT c')) \<longrightarrow> c' = c)
            \<and> (\<forall>c'<4. bit (parent_int_map (handler priv' ! c')) l \<longleftrightarrow> c' = c)"
      by (intro exI [of _ c] conjI)
  qed
  with run len(1) show ?thesis
    by (intro exI [of _ priv'] exI [of _ warnings] conjI)
qed

theorem every_line_gets_one_available_parent_witness:
  "length [0x20, 0x60, 0, 0 :: u32] = IOINTC_NUM_PARENT
   \<and> (\<exists>c<IOINTC_NUM_PARENT. 0 \<le> all_four_parents c)
   \<and> (\<exists>priv' warnings.
      probe_and_validate all_four_parents [0x20, 0x60, 0, 0] = Inr (priv', warnings)
      \<and> length (map_cache priv') = IOINTC_CHIP_IRQ
      \<and> (\<forall>l<IOINTC_CHIP_IRQ. \<exists>c<IOINTC_NUM_PARENT. 0 \<le> all_four_parents c
            \<and> map_cache priv' ! l = ucast (push_bit IOINTC_SHIFT_INTx (BIT c))
            \<and> (\<forall>c'<IOINTC_NUM_PARENT.
                  map_cache priv' ! l = ucast (push_bit IOINTC_SHIFT_INTx (BIT c')) \<longrightarrow> c' = c)
            \<and> (\<forall>c'<IOINTC_NUM_PARENT.
                  bit (parent_int_map (handler priv' ! c')) l \<longleftrightarrow> c' = c)))"
proof -
  have 1: "length [0x20, 0x60, 0, 0 :: u32] = IOINTC_NUM_PARENT"
    by simp
  have 2: "\<exists>c<IOINTC_NUM_PARENT. 0 \<le> all_four_parents c"
    by (intro exI [of _ 0]) (simp add: all_four_parents_def)
  from 1 2 every_line_gets_one_available_parent [OF 1 2] show ?thesis
    by (intro conjI)
qed




text \<open>
  C3: with at least one available parent, a line that no parent claims in the hint table
  gets the byte of the lowest-numbered available parent.
\<close>

theorem homeless_line_goes_to_lowest_parent:
  assumes "length of_parent_int_map = IOINTC_NUM_PARENT"
    and "fallback_parent < IOINTC_NUM_PARENT" "0 \<le> parent_irq fallback_parent"
      "\<forall>c<fallback_parent. parent_irq c < 0"
    and "l < IOINTC_CHIP_IRQ"
    and "\<forall>c<IOINTC_NUM_PARENT. \<not> bit (of_parent_int_map ! c) l"
  shows "\<exists>priv' warnings.
      probe_and_validate parent_irq of_parent_int_map = Inr (priv', warnings)
      \<and> map_cache priv' ! l = ucast (push_bit IOINTC_SHIFT_INTx (BIT fallback_parent))"
proof -
  from assms(6) have "\<forall>c'<4. \<not> wants parent_irq of_parent_int_map c' l"
    by (simp add: wants_def)
  then have "(wants parent_irq of_parent_int_map fallback_parent l
        \<and> (\<forall>c'<4. c' \<noteq> fallback_parent \<longrightarrow> \<not> wants parent_irq of_parent_int_map c' l))
      \<or> (fallback_parent = fallback_parent \<and> ((\<forall>c'<4. \<not> wants parent_irq of_parent_int_map c' l)
           \<or> (\<exists>i<4. \<exists>j<i. wants parent_irq of_parent_int_map i l \<and> wants parent_irq of_parent_int_map j l)))"
    by simp
  from probe_and_validate_line [OF assms(1-5) assms(2) this] show ?thesis
    by blast
qed

theorem homeless_line_goes_to_lowest_parent_witness:
  "\<exists>priv' warnings.
      probe_and_validate all_four_parents [0x20, 0x60, 0, 0] = Inr (priv', warnings)
      \<and> map_cache priv' ! 0 = ucast (push_bit IOINTC_SHIFT_INTx (BIT 0))"
proof -
  have "length [0x20, 0x60, 0, 0 :: u32] = IOINTC_NUM_PARENT"
    and "(0 :: nat) < IOINTC_NUM_PARENT" and "0 \<le> all_four_parents 0"
    and "\<forall>c<0. all_four_parents c < 0"
    and "(0 :: nat) < IOINTC_CHIP_IRQ"
    and "\<forall>c<IOINTC_NUM_PARENT. \<not> bit ([0x20, 0x60, 0, 0 :: u32] ! c) 0"
    by (simp_all add: all_less_4 all_four_parents_def)
  then show ?thesis
    by (rule homeless_line_goes_to_lowest_parent)
qed

text \<open>
  C4, as the code has it: a line that two or more \<^emph>\<open>available\<close> parents claim
  gets the byte of the lowest-numbered available parent, and is then in the map of that
  parent and of no other. The claim counts every parent of the hint table; the code skips
  the hints of parents that are not available (lines 170 and 171), so a line claimed by
  one available and one unavailable parent stays with the available one, which the
  counterexample shows for line 5 on a board with only \<^verbatim>\<open>int0\<close> and
  \<^verbatim>\<open>int1\<close>.
\<close>

theorem line_of_several_available_parents_goes_to_lowest:
  assumes "length of_parent_int_map = IOINTC_NUM_PARENT"
    and "fallback_parent < IOINTC_NUM_PARENT" "0 \<le> parent_irq fallback_parent"
      "\<forall>c<fallback_parent. parent_irq c < 0"
    and "l < IOINTC_CHIP_IRQ"
    and "i < IOINTC_NUM_PARENT" "j < IOINTC_NUM_PARENT" "i \<noteq> j"
    and "0 \<le> parent_irq i" "bit (of_parent_int_map ! i) l"
    and "0 \<le> parent_irq j" "bit (of_parent_int_map ! j) l"
  shows "\<exists>priv' warnings.
      probe_and_validate parent_irq of_parent_int_map = Inr (priv', warnings)
      \<and> map_cache priv' ! l = ucast (push_bit IOINTC_SHIFT_INTx (BIT fallback_parent))
      \<and> (\<forall>c<IOINTC_NUM_PARENT.
            bit (parent_int_map (handler priv' ! c)) l \<longleftrightarrow> c = fallback_parent)"
proof -
  have "\<exists>i<4. \<exists>j<4. i \<noteq> j \<and> wants parent_irq of_parent_int_map i l \<and> wants parent_irq of_parent_int_map j l"
    using assms(6-12) unfolding wants_def by blast
  then have "\<exists>i<4. \<exists>j<i. wants parent_irq of_parent_int_map i l \<and> wants parent_irq of_parent_int_map j l"
    by (simp only: several_iff)
  then have "(wants parent_irq of_parent_int_map fallback_parent l
        \<and> (\<forall>c'<4. c' \<noteq> fallback_parent \<longrightarrow> \<not> wants parent_irq of_parent_int_map c' l))
      \<or> (fallback_parent = fallback_parent \<and> ((\<forall>c'<4. \<not> wants parent_irq of_parent_int_map c' l)
           \<or> (\<exists>i<4. \<exists>j<i. wants parent_irq of_parent_int_map i l \<and> wants parent_irq of_parent_int_map j l)))"
    by simp
  from probe_and_validate_line [OF assms(1-5) assms(2) this] show ?thesis .
qed

theorem line_of_several_available_parents_goes_to_lowest_witness:
  "\<exists>priv' warnings.
      probe_and_validate all_four_parents [0x20, 0x60, 0, 0] = Inr (priv', warnings)
      \<and> map_cache priv' ! 5 = ucast (push_bit IOINTC_SHIFT_INTx (BIT 0))
      \<and> (\<forall>c<IOINTC_NUM_PARENT. bit (parent_int_map (handler priv' ! c)) 5 \<longleftrightarrow> c = 0)"
proof -
  have "length [0x20, 0x60, 0, 0 :: u32] = IOINTC_NUM_PARENT"
    and "(0 :: nat) < IOINTC_NUM_PARENT" and "0 \<le> all_four_parents 0"
    and "\<forall>c<0. all_four_parents c < 0"
    and "(5 :: nat) < IOINTC_CHIP_IRQ"
    and "(0 :: nat) < IOINTC_NUM_PARENT" and "(1 :: nat) < IOINTC_NUM_PARENT" and "(0 :: nat) \<noteq> 1"
    and "0 \<le> all_four_parents 0" and "bit ([0x20, 0x60, 0, 0 :: u32] ! 0) 5"
    and "0 \<le> all_four_parents 1" and "bit ([0x20, 0x60, 0, 0 :: u32] ! 1) 5"
    by (simp_all add: all_four_parents_def)
  then show ?thesis
    by (rule line_of_several_available_parents_goes_to_lowest)
qed

text \<open>
  The counterexample to C4 as stated: parents 1 and 2 both claim line 5, parents 0 and 1
  are available, and line 5 gets the byte of parent 1, not that of parent 0.
\<close>

theorem line_of_two_parents_one_unavailable_counterexample:
  "bit ([0, 0x20, 0x20, 0 :: u32] ! 1) 5 \<and> bit ([0, 0x20, 0x20, 0 :: u32] ! 2) 5
   \<and> 0 \<le> int0_int1_only 0 \<and> 0 \<le> int0_int1_only 1
   \<and> int0_int1_only 2 < 0 \<and> int0_int1_only 3 < 0
   \<and> \<not> isl (probe_and_validate int0_int1_only [0, 0x20, 0x20, 0])
   \<and> map_cache (fst (projr (probe_and_validate int0_int1_only [0, 0x20, 0x20, 0]))) ! 5
       = ucast (push_bit IOINTC_SHIFT_INTx (BIT 1))
   \<and> (ucast (push_bit IOINTC_SHIFT_INTx (BIT 1)) :: u8) \<noteq> ucast (push_bit IOINTC_SHIFT_INTx (BIT 0))"
proof -
  have len: "length [0, 0x20, 0x20, 0 :: u32] = 4"
    by simp
  have fb: "(0 :: nat) < 4" "0 \<le> int0_int1_only 0" "\<forall>c<0. int0_int1_only c < 0"
    by (simp_all add: int0_int1_only_def)
  have r: "(wants int0_int1_only [0, 0x20, 0x20, 0] 1 5
        \<and> (\<forall>c'<4. c' \<noteq> 1 \<longrightarrow> \<not> wants int0_int1_only [0, 0x20, 0x20, 0] c' 5))
      \<or> (1 = (0 :: nat) \<and> ((\<forall>c'<4. \<not> wants int0_int1_only [0, 0x20, 0x20, 0] c' 5)
           \<or> (\<exists>i<4. \<exists>j<i. wants int0_int1_only [0, 0x20, 0x20, 0] i 5
                 \<and> wants int0_int1_only [0, 0x20, 0x20, 0] j 5)))"
    by (simp add: all_less_4 wants_def int0_int1_only_def)
  from probe_and_validate_line [OF len fb _ _ r]
  obtain priv' warnings where "probe_and_validate int0_int1_only [0, 0x20, 0x20, 0] = Inr (priv', warnings)"
    and "map_cache priv' ! 5 = ucast (push_bit IOINTC_SHIFT_INTx (BIT 1))"
    by auto
  then have "\<not> isl (probe_and_validate int0_int1_only [0, 0x20, 0x20, 0])"
    and "map_cache (fst (projr (probe_and_validate int0_int1_only [0, 0x20, 0x20, 0]))) ! 5
       = ucast (push_bit IOINTC_SHIFT_INTx (BIT 1))"
    by simp_all
  moreover have "(ucast (push_bit IOINTC_SHIFT_INTx (BIT 1)) :: u8) \<noteq> ucast (push_bit IOINTC_SHIFT_INTx (BIT 0))"
    using INTx_inject [of 1 0] by auto
  moreover have "bit ([0, 0x20, 0x20, 0 :: u32] ! 1) 5" "bit ([0, 0x20, 0x20, 0 :: u32] ! 2) 5"
    "0 \<le> int0_int1_only 0" "0 \<le> int0_int1_only 1" "int0_int1_only 2 < 0" "int0_int1_only 3 < 0"
    by (simp_all add: int0_int1_only_def)
  ultimately show ?thesis
    by (intro conjI)
qed

text \<open>
  C5: a line claimed by exactly one parent, which is available, gets the byte of that
  parent and stays in its map only.
\<close>

theorem single_claim_is_kept:
  assumes "length of_parent_int_map = IOINTC_NUM_PARENT"
    and "l < IOINTC_CHIP_IRQ"
    and "c < IOINTC_NUM_PARENT" "0 \<le> parent_irq c" "bit (of_parent_int_map ! c) l"
    and "\<forall>c'<IOINTC_NUM_PARENT. c' \<noteq> c \<longrightarrow> \<not> bit (of_parent_int_map ! c') l"
  shows "\<exists>priv' warnings.
      probe_and_validate parent_irq of_parent_int_map = Inr (priv', warnings)
      \<and> map_cache priv' ! l = ucast (push_bit IOINTC_SHIFT_INTx (BIT c))
      \<and> (\<forall>i<IOINTC_NUM_PARENT. bit (parent_int_map (handler priv' ! i)) l \<longleftrightarrow> i = c)"
proof -
  from lowest_available [of c parent_irq, OF assms(3,4)]
  obtain fb where fb: "fb < 4" "0 \<le> parent_irq fb" "\<forall>c<fb. parent_irq c < 0"
    by blast
  from assms(4,5) have "wants parent_irq of_parent_int_map c l"
    by (simp add: wants_def)
  moreover from assms(6) have "\<forall>c'<4. c' \<noteq> c \<longrightarrow> \<not> wants parent_irq of_parent_int_map c' l"
    by (simp add: wants_def)
  ultimately have "(wants parent_irq of_parent_int_map c l
        \<and> (\<forall>c'<4. c' \<noteq> c \<longrightarrow> \<not> wants parent_irq of_parent_int_map c' l))
      \<or> (c = fb \<and> ((\<forall>c'<4. \<not> wants parent_irq of_parent_int_map c' l)
           \<or> (\<exists>i<4. \<exists>j<i. wants parent_irq of_parent_int_map i l \<and> wants parent_irq of_parent_int_map j l)))"
    by simp
  from probe_and_validate_line [OF assms(1) fb assms(2,3) this] show ?thesis .
qed

theorem single_claim_is_kept_witness:
  "\<exists>priv' warnings.
      probe_and_validate all_four_parents [0x20, 0x60, 0, 0] = Inr (priv', warnings)
      \<and> map_cache priv' ! 6 = ucast (push_bit IOINTC_SHIFT_INTx (BIT 1))
      \<and> (\<forall>i<IOINTC_NUM_PARENT. bit (parent_int_map (handler priv' ! i)) 6 \<longleftrightarrow> i = 1)"
proof -
  have "length [0x20, 0x60, 0, 0 :: u32] = IOINTC_NUM_PARENT"
    and "(6 :: nat) < IOINTC_CHIP_IRQ"
    and "(1 :: nat) < IOINTC_NUM_PARENT" and "0 \<le> all_four_parents 1"
    and "bit ([0x20, 0x60, 0, 0 :: u32] ! 1) 6"
    and "\<forall>c'<IOINTC_NUM_PARENT. c' \<noteq> 1 \<longrightarrow> \<not> bit ([0x20, 0x60, 0, 0 :: u32] ! c') 6"
    by (simp_all add: all_less_4 all_four_parents_def)
  then show ?thesis
    by (rule single_claim_is_kept)
qed

text \<open>
  C6: running the function again, with the map cache it produced read back as a hint
  table and the same available parents, produces the same map cache.
\<close>

theorem resolve_is_idempotent:
  assumes "length of_parent_int_map = IOINTC_NUM_PARENT"
    and "\<exists>c<IOINTC_NUM_PARENT. 0 \<le> parent_irq c"
  shows "\<exists>priv' warnings priv'' warnings'.
      probe_and_validate parent_irq of_parent_int_map = Inr (priv', warnings)
      \<and> probe_and_validate parent_irq (assignment_hints (map_cache priv')) = Inr (priv'', warnings')
      \<and> map_cache priv'' = map_cache priv'"
proof -
  obtain priv' warnings where run: "probe_and_validate parent_irq of_parent_int_map = Inr (priv', warnings)"
    and len: "length (map_cache priv') = 32" "length (handler priv') = 4"
    and lines: "\<forall>l<32. \<exists>c<4. 0 \<le> parent_irq c
        \<and> map_cache priv' ! l = ucast (push_bit IOINTC_SHIFT_INTx (BIT c))
        \<and> (\<forall>i<4. bit (parent_int_map (handler priv' ! i)) l \<longleftrightarrow> i = c)"
    by (rule probe_and_validate_total [OF assms])
  let ?hints = "assignment_hints (map_cache priv')"
  have len': "length ?hints = 4"
    by (rule length_assignment_hints)
  obtain priv'' warnings' where run': "probe_and_validate parent_irq ?hints = Inr (priv'', warnings')"
    and len'': "length (map_cache priv'') = 32" "length (handler priv'') = 4"
    and lines'': "\<forall>l<32. \<exists>c<4. 0 \<le> parent_irq c
        \<and> map_cache priv'' ! l = ucast (push_bit IOINTC_SHIFT_INTx (BIT c))
        \<and> (\<forall>i<4. bit (parent_int_map (handler priv'' ! i)) l \<longleftrightarrow> i = c)"
    by (rule probe_and_validate_total [OF len' assms(2)])
  from assms(2) obtain c0 where "c0 < 4" "0 \<le> parent_irq c0"
    by blast
  from lowest_available [of c0 parent_irq, OF this]
  obtain fb where fb: "fb < 4" "0 \<le> parent_irq fb" "\<forall>c<fb. parent_irq c < 0"
    by blast
  have "map_cache priv'' ! l = map_cache priv' ! l" if l: "l < 32" for l
  proof -
    from lines l obtain c where c: "c < 4" "0 \<le> parent_irq c"
      "map_cache priv' ! l = ucast (push_bit IOINTC_SHIFT_INTx (BIT c))"
      by blast
    have "wants parent_irq ?hints c l"
      using c l by (simp add: wants_def bit_assignment_hints)
    moreover have "\<forall>c'<4. c' \<noteq> c \<longrightarrow> \<not> wants parent_irq ?hints c' l"
    proof (intro allI impI)
      fix c'
      assume c': "c' < 4" "c' \<noteq> c"
      show "\<not> wants parent_irq ?hints c' l"
      proof
        assume "wants parent_irq ?hints c' l"
        then have "map_cache priv' ! l = ucast (push_bit IOINTC_SHIFT_INTx (BIT c'))"
          using c'(1) by (simp add: wants_def bit_assignment_hints)
        with c(3) have "(ucast (push_bit IOINTC_SHIFT_INTx (BIT c')) :: u8)
            = ucast (push_bit IOINTC_SHIFT_INTx (BIT c))"
          by simp
        from INTx_inject [OF c'(1) c(1) this] c'(2) show False
          by simp
      qed
    qed
    ultimately have "(wants parent_irq ?hints c l \<and> (\<forall>c'<4. c' \<noteq> c \<longrightarrow> \<not> wants parent_irq ?hints c' l))
        \<or> (c = fb \<and> ((\<forall>c'<4. \<not> wants parent_irq ?hints c' l)
             \<or> (\<exists>i<4. \<exists>j<i. wants parent_irq ?hints i l \<and> wants parent_irq ?hints j l)))"
      by simp
    from probe_and_validate_line [OF len' fb l c(1) this] run' c(3) show ?thesis
      by auto
  qed
  then have "map_cache priv'' = map_cache priv'"
    using len(1) len''(1) by (intro nth_equalityI) simp_all
  with run run' show ?thesis
    by blast
qed

theorem resolve_is_idempotent_witness:
  "\<exists>priv' warnings priv'' warnings'.
      probe_and_validate all_four_parents [0x20, 0x60, 0, 0] = Inr (priv', warnings)
      \<and> probe_and_validate all_four_parents (assignment_hints (map_cache priv')) = Inr (priv'', warnings')
      \<and> map_cache priv'' = map_cache priv'"
proof -
  have 1: "length [0x20, 0x60, 0, 0 :: u32] = IOINTC_NUM_PARENT"
    by simp
  have 2: "\<exists>c<IOINTC_NUM_PARENT. 0 \<le> all_four_parents c"
    by (intro exI [of _ 0]) (simp add: all_four_parents_def)
  from 1 2 show ?thesis
    by (rule resolve_is_idempotent)
qed

text \<open>
  C7: the parent of a line depends only on which available parents claim that line: two
  hint tables that agree there, for the same available parents, give the line the same
  map cache entry, whatever they say about other lines and about unavailable parents.
  The order in which the loops take the lines has no part in it: lemma
  \<open>line_order_does_not_matter\<close> renumbers the lines and finds the result renumbered.
\<close>

theorem line_fate_depends_on_own_claims:
  assumes "length hints1 = IOINTC_NUM_PARENT" "length hints2 = IOINTC_NUM_PARENT"
    and "\<exists>c<IOINTC_NUM_PARENT. 0 \<le> parent_irq c"
    and "l < IOINTC_CHIP_IRQ"
    and "\<forall>c<IOINTC_NUM_PARENT. 0 \<le> parent_irq c \<longrightarrow> (bit (hints1 ! c) l \<longleftrightarrow> bit (hints2 ! c) l)"
  shows "\<exists>priv1 warnings1 priv2 warnings2.
      probe_and_validate parent_irq hints1 = Inr (priv1, warnings1)
      \<and> probe_and_validate parent_irq hints2 = Inr (priv2, warnings2)
      \<and> map_cache priv1 ! l = map_cache priv2 ! l"
  using assms(1,2,3,4,4,5) by (rule line_fate_by_claims)

theorem line_fate_depends_on_own_claims_witness:
  "\<exists>priv1 warnings1 priv2 warnings2.
      probe_and_validate int0_int1_only [0, 0x20, 0x20, 0] = Inr (priv1, warnings1)
      \<and> probe_and_validate int0_int1_only [0xFFFFFFDF, 0x60, 0, 0x30] = Inr (priv2, warnings2)
      \<and> map_cache priv1 ! 5 = map_cache priv2 ! 5"
proof -
  have "length [0, 0x20, 0x20, 0 :: u32] = IOINTC_NUM_PARENT"
    and "length [0xFFFFFFDF, 0x60, 0, 0x30 :: u32] = IOINTC_NUM_PARENT"
    and "\<exists>c<IOINTC_NUM_PARENT. 0 \<le> int0_int1_only c"
    and "(5 :: nat) < IOINTC_CHIP_IRQ"
    and "\<forall>c<IOINTC_NUM_PARENT. 0 \<le> int0_int1_only c \<longrightarrow>
          (bit ([0, 0x20, 0x20, 0 :: u32] ! c) 5 \<longleftrightarrow> bit ([0xFFFFFFDF, 0x60, 0, 0x30 :: u32] ! c) 5)"
    by (simp_all add: all_less_4 ex_less_4 int0_int1_only_def)
  then show ?thesis
    by (rule line_fate_depends_on_own_claims)
qed

text \<open>
  C8: the warnings are, in this order, one \<open>Homeless_IRQ\<close> for each line that no
  available parent claims and one \<open>Multiple_Parents\<close> for each line that two
  available parents claim, each with the line and the fallback parent, lines ascending,
  and nothing else.
\<close>

theorem warnings_are_exactly_the_corrections:
  assumes "length of_parent_int_map = IOINTC_NUM_PARENT"
    and "fallback_parent < IOINTC_NUM_PARENT" "0 \<le> parent_irq fallback_parent"
      "\<forall>c<fallback_parent. parent_irq c < 0"
  shows "\<exists>priv'. probe_and_validate parent_irq of_parent_int_map =
      Inr (priv',
        map (\<lambda>l. Homeless_IRQ l fallback_parent)
          (filter (\<lambda>l. \<forall>c<IOINTC_NUM_PARENT. \<not> (0 \<le> parent_irq c \<and> bit (of_parent_int_map ! c) l))
             [0..<IOINTC_CHIP_IRQ])
        @ map (\<lambda>l. Multiple_Parents l fallback_parent)
          (filter (\<lambda>l. \<exists>i<IOINTC_NUM_PARENT. \<exists>j<i.
                (0 \<le> parent_irq i \<and> bit (of_parent_int_map ! i) l)
                \<and> (0 \<le> parent_irq j \<and> bit (of_parent_int_map ! j) l))
             [0..<IOINTC_CHIP_IRQ]))"
proof -
  obtain priv' where run: "probe_and_validate parent_irq of_parent_int_map =
        Inr (priv',
             map (\<lambda>l. Homeless_IRQ l fallback_parent)
               (filter (\<lambda>l. \<forall>c<4. \<not> wants parent_irq of_parent_int_map c l) [0..<32])
             @ map (\<lambda>l. Multiple_Parents l fallback_parent)
                 (filter (\<lambda>l. \<exists>i<4. \<exists>j<i. wants parent_irq of_parent_int_map i l
                     \<and> wants parent_irq of_parent_int_map j l) [0..<32]))"
    and lens: "length (handler priv') = 4" "length (map_cache priv') = 32"
    and mask: "\<forall>i. bit (possible_parent_mask priv') i \<longleftrightarrow> i < 4 \<and> 0 \<le> parent_irq i"
    and res: "\<forall>l<32. \<forall>c<4.
           (wants parent_irq of_parent_int_map c l
              \<and> (\<forall>c'<4. c' \<noteq> c \<longrightarrow> \<not> wants parent_irq of_parent_int_map c' l))
           \<or> (c = fallback_parent \<and> ((\<forall>c'<4. \<not> wants parent_irq of_parent_int_map c' l)
                 \<or> (\<exists>i<4. \<exists>j<i. wants parent_irq of_parent_int_map i l
                       \<and> wants parent_irq of_parent_int_map j l)))
         \<longrightarrow> map_cache priv' ! l = ucast (push_bit IOINTC_SHIFT_INTx (BIT c))
             \<and> (\<forall>i<4. bit (parent_int_map (handler priv' ! i)) l \<longleftrightarrow> i = c)"
    by (rule probe_and_validate_result [OF assms])
  from run [unfolded wants_def] show ?thesis
    by (rule exI)
qed

theorem warnings_are_exactly_the_corrections_witness:
  "\<exists>priv'. probe_and_validate all_four_parents [0x20, 0x60, 0, 0] =
      Inr (priv', map (\<lambda>l. Homeless_IRQ l 0) ([0..<5] @ [7..<32]) @ [Multiple_Parents 5 0])"
proof -
  have "length [0x20, 0x60, 0, 0 :: u32] = IOINTC_NUM_PARENT"
    and "(0 :: nat) < IOINTC_NUM_PARENT" and "0 \<le> all_four_parents 0"
    and "\<forall>c<0. all_four_parents c < 0"
    by (simp_all add: all_four_parents_def)
  from warnings_are_exactly_the_corrections [OF this]
  obtain priv' where "probe_and_validate all_four_parents [0x20, 0x60, 0, 0] =
      Inr (priv',
        map (\<lambda>l. Homeless_IRQ l 0)
          (filter (\<lambda>l. \<forall>c<4. \<not> (0 \<le> all_four_parents c \<and> bit ([0x20, 0x60, 0, 0 :: u32] ! c) l))
             [0..<32])
        @ map (\<lambda>l. Multiple_Parents l 0)
          (filter (\<lambda>l. \<exists>i<4. \<exists>j<i.
                (0 \<le> all_four_parents i \<and> bit ([0x20, 0x60, 0, 0 :: u32] ! i) l)
                \<and> (0 \<le> all_four_parents j \<and> bit ([0x20, 0x60, 0, 0 :: u32] ! j) l))
             [0..<32]))"
    by blast
  moreover have "filter (\<lambda>l. \<forall>c<4. \<not> (0 \<le> all_four_parents c \<and> bit ([0x20, 0x60, 0, 0 :: u32] ! c) l))
             [0..<32] = [0..<5] @ [7..<32]"
    by (simp add: all_less_4 all_four_parents_def upt_rec [of _ "numeral n" for n])
  moreover have "filter (\<lambda>l. \<exists>i<4. \<exists>j<i.
                (0 \<le> all_four_parents i \<and> bit ([0x20, 0x60, 0, 0 :: u32] ! i) l)
                \<and> (0 \<le> all_four_parents j \<and> bit ([0x20, 0x60, 0, 0 :: u32] ! j) l))
             [0..<32] = [5]"
    by (simp add: ex_less_4 ex_less_numeral all_four_parents_def upt_rec [of _ "numeral n" for n])
  ultimately show ?thesis
    by simp
qed

text \<open>
  C9: with at least one available parent the function returns a result. Each of its
  \<^verbatim>\<open>while\<close> loops ends within 32 rounds, from any state, because a round that
  does not fault removes one line from the mask the loop tests: the lines missing from
  \<open>proceed_mask\<close>, the lines of \<open>duplicated_mask\<close>, the lines of
  \<open>pending\<close>. The \<^verbatim>\<open>for\<close> loops run over the four parents.
\<close>

theorem resolve_terminates:
  assumes "length of_parent_int_map = IOINTC_NUM_PARENT"
    and "\<exists>c<IOINTC_NUM_PARENT. 0 \<le> parent_irq c"
  shows "(\<exists>priv' warnings. probe_and_validate parent_irq of_parent_int_map = Inr (priv', warnings))
    \<and> (\<forall>fb s. run_while IOINTC_CHIP_IRQ (\<lambda>(priv, proceed_mask, warnings). NOT proceed_mask \<noteq> 0)
            (homeless_step fb) s = Some (homeless_loop fb s))
    \<and> (\<forall>fb s. run_while IOINTC_CHIP_IRQ (\<lambda>(priv, duplicated_mask, warnings). duplicated_mask \<noteq> 0)
            (duplicated_step fb) s = Some (duplicated_loop fb s))
    \<and> (\<forall>i s. run_while IOINTC_CHIP_IRQ (\<lambda>(priv, pending). pending \<noteq> 0)
            (map_cache_step i) s = Some (map_cache_loop i s))
    \<and> (\<forall>fb priv m w priv' m' w'. homeless_step fb (priv, m, w) = Inr (priv', m', w')
          \<longrightarrow> length (lines_of (NOT m')) < length (lines_of (NOT m)))
    \<and> (\<forall>fb priv m w priv' m' w'. duplicated_step fb (priv, m, w) = Inr (priv', m', w')
          \<longrightarrow> length (lines_of m') < length (lines_of m))
    \<and> (\<forall>i priv m priv' m'. map_cache_step i (priv, m) = Inr (priv', m')
          \<longrightarrow> length (lines_of m') < length (lines_of m))"
proof -
  obtain priv' warnings where "probe_and_validate parent_irq of_parent_int_map = Inr (priv', warnings)"
    and "length (map_cache priv') = 32" "length (handler priv') = 4"
    and "\<forall>l<32. \<exists>c<4. 0 \<le> parent_irq c
        \<and> map_cache priv' ! l = ucast (push_bit IOINTC_SHIFT_INTx (BIT c))
        \<and> (\<forall>i<4. bit (parent_int_map (handler priv' ! i)) l \<longleftrightarrow> i = c)"
    by (rule probe_and_validate_total [OF assms])
  then have a: "\<exists>priv' warnings. probe_and_validate parent_irq of_parent_int_map = Inr (priv', warnings)"
    by blast
  have r1: "\<forall>fb s. run_while IOINTC_CHIP_IRQ (\<lambda>(priv, proceed_mask, warnings). NOT proceed_mask \<noteq> 0)
            (homeless_step fb) s = Some (homeless_loop fb s)"
    by (intro allI) (rule homeless_loop_rounds)
  have r2: "\<forall>fb s. run_while IOINTC_CHIP_IRQ (\<lambda>(priv, duplicated_mask, warnings). duplicated_mask \<noteq> 0)
            (duplicated_step fb) s = Some (duplicated_loop fb s)"
    by (intro allI) (rule duplicated_loop_rounds)
  have r3: "\<forall>i s. run_while IOINTC_CHIP_IRQ (\<lambda>(priv, pending). pending \<noteq> 0)
            (map_cache_step i) s = Some (map_cache_loop i s)"
    by (intro allI) (rule map_cache_loop_rounds)
  have d1: "\<forall>fb priv m w priv' m' w'. homeless_step fb (priv, m, w) = Inr (priv', m', w')
          \<longrightarrow> length (lines_of (NOT m')) < length (lines_of (NOT m))"
    using homeless_step_decreases by blast
  have d2: "\<forall>fb priv m w priv' m' w'. duplicated_step fb (priv, m, w) = Inr (priv', m', w')
          \<longrightarrow> length (lines_of m') < length (lines_of m)"
    using duplicated_step_decreases by blast
  have d3: "\<forall>i priv m priv' m'. map_cache_step i (priv, m) = Inr (priv', m')
          \<longrightarrow> length (lines_of m') < length (lines_of m)"
    using map_cache_step_decreases by blast
  from a r1 r2 r3 d1 d2 d3 show ?thesis
    by (intro conjI)
qed

theorem resolve_terminates_witness:
  "(\<exists>priv' warnings. probe_and_validate all_four_parents [0x20, 0x60, 0, 0] = Inr (priv', warnings))
   \<and> run_while IOINTC_CHIP_IRQ (\<lambda>(priv, proceed_mask, warnings). NOT proceed_mask \<noteq> 0)
        (homeless_step 0) (kzalloc_priv, 0x60, []) = Some (homeless_loop 0 (kzalloc_priv, 0x60, []))
   \<and> run_while IOINTC_CHIP_IRQ (\<lambda>(priv, duplicated_mask, warnings). duplicated_mask \<noteq> 0)
        (duplicated_step 0) (kzalloc_priv, 0x20, []) = Some (duplicated_loop 0 (kzalloc_priv, 0x20, []))
   \<and> run_while IOINTC_CHIP_IRQ (\<lambda>(priv, pending). pending \<noteq> 0)
        (map_cache_step 1) (kzalloc_priv, 0x40) = Some (map_cache_loop 1 (kzalloc_priv, 0x40))"
proof -
  have 1: "length [0x20, 0x60, 0, 0 :: u32] = IOINTC_NUM_PARENT"
    by simp
  have 2: "\<exists>c<IOINTC_NUM_PARENT. 0 \<le> all_four_parents c"
    by (intro exI [of _ 0]) (simp add: all_four_parents_def)
  note t = resolve_terminates [OF 1 2]
  from t [THEN conjunct1]
    t [THEN conjunct2, THEN conjunct1, rule_format, of 0 "(kzalloc_priv, 0x60, [])"]
    t [THEN conjunct2, THEN conjunct2, THEN conjunct1, rule_format, of 0 "(kzalloc_priv, 0x20, [])"]
    t [THEN conjunct2, THEN conjunct2, THEN conjunct2, THEN conjunct1, rule_format, of 1 "(kzalloc_priv, 0x40)"]
  show ?thesis
    by (intro conjI)
qed

text \<open>
  C10: when the mask of available parents is not zero, no \<^verbatim>\<open>__ffs\<close> inside
  \<^verbatim>\<open>validate_parent_mask\<close> is applied to zero: the function never ends in the
  fault \<open>Ffs_Of_Zero\<close>, whatever else the private data and the hint table hold.
  That \<^verbatim>\<open>iointc_of_init\<close> ensures the condition before the call is lemma
  \<open>iointc_of_init_ffs_fault\<close>, and that the fault does occur with a zero mask is
  lemma \<open>validate_parent_mask_no_parent\<close>.
\<close>

theorem ffs_argument_never_zero:
  assumes "possible_parent_mask priv \<noteq> 0"
  shows "validate_parent_mask priv of_parent_int_map \<noteq> Inl Ffs_Of_Zero"
proof -
  from assms have "kernel_ffs (ucast (possible_parent_mask priv)) \<noteq> None"
    by (simp add: ffs_u8_None)
  then show ?thesis
    using for_loop_fault [of "collect_parent of_parent_int_map" Ffs_Of_Zero, OF collect_parent_fault]
      for_loop_fault [of generate_map_cache Ffs_Of_Zero, OF generate_map_cache_fault]
      homeless_loop_fault duplicated_loop_fault
    by (auto simp add: validate_parent_mask_def split: option.splits sum.splits)
qed

theorem ffs_argument_never_zero_witness:
  "possible_parent_mask (kzalloc_priv\<lparr>possible_parent_mask := 3\<rparr>) \<noteq> 0
   \<and> validate_parent_mask (kzalloc_priv\<lparr>possible_parent_mask := 3\<rparr>) [0, 0x20, 0x20, 0]
       \<noteq> Inl Ffs_Of_Zero"
  using ffs_argument_never_zero [of "kzalloc_priv\<lparr>possible_parent_mask := 3\<rparr>" "[0, 0x20, 0x20, 0]"]
  by simp

end
